theory Spec2Isabelle
  imports Main "HOL-Library.Signed_Division"
begin

section \<open>The thread-local cyclic buffer pool of rdstring.c\<close>

text \<open>
  The development embeds \<^verbatim>\<open>rdstr_cyclic_get\<close>, \<^verbatim>\<open>rd_tsprintf\<close> and
  \<^verbatim>\<open>rd_string_thread_cleanup\<close> of \<^verbatim>\<open>src/rdstring.c\<close>.

  C's \<^verbatim>\<open>int\<close> is modelled by \<open>int\<close>; every signed operation of the source that can leave
  the range of a 32-bit \<^verbatim>\<open>int\<close> is guarded, and leaving the range is the outcome
  \<open>Signed_Overflow\<close> (undefined behaviour in C). Reading an array outside its bounds or
  through a pointer to no live object is \<open>Bad_Access\<close>, releasing a block that is not live
  is \<open>Bad_Free\<close>. The allocator is assumed to satisfy every request.

  The specification's names for the parts of the source: the pool is the thread-local
  \<^verbatim>\<open>rdstr_states.tsp\<close>, its slot count is \<^verbatim>\<open>size\<close>, its cursor is \<^verbatim>\<open>i\<close>, the storage of slot
  \<open>x\<close> is \<^verbatim>\<open>buf[x]\<close> and its capacity is \<^verbatim>\<open>len[x]\<close>; acquiring the next slot is
  \<^verbatim>\<open>rdstr_cyclic_get\<close>, rendering is \<^verbatim>\<open>rd_tsprintf\<close>, teardown is
  \<^verbatim>\<open>rd_string_thread_cleanup\<close>, and the slot count a thread is configured with is the constant
  \<^verbatim>\<open>RD_TSPRINTF_BUFCNT\<close>.
\<close>

subsection \<open>Data\<close>

type_synonym addr = nat

definition INT_MAX :: int where
  "INT_MAX = 2147483647"

datatype fault = Signed_Overflow | Bad_Access | Bad_Free

text \<open>
  \<^verbatim>\<open>struct rdstr_cyclic { int size; char **buf; int *len; int i; }\<close>. The fields carry the
  prefix \<open>cyc_\<close> (the source reads them as \<^verbatim>\<open>cyc->size\<close> and so on). \<open>cyc_buf\<close> and
  \<open>cyc_len\<close> hold the elements of the arrays the two pointers lead to; they are \<open>[]\<close>
  when the pointer leads to no live array (\<^verbatim>\<open>NULL\<close> in the zero-initialised thread-local
  object, dangling after \<^verbatim>\<open>free\<close>). A \<^verbatim>\<open>char *\<close> is \<open>None\<close> when it is \<^verbatim>\<open>NULL\<close>.
\<close>

record rdstr_cyclic =
  cyc_size :: int
  cyc_buf :: "addr option list"
  cyc_len :: "int list"
  cyc_i :: int

text \<open>
  The state a thread runs in: its \<^verbatim>\<open>rdstr_states.tsp\<close>, the live blocks handed out by
  \<^verbatim>\<open>malloc\<close> with their bytes, and the number of blocks \<^verbatim>\<open>malloc\<close> has handed out so far,
  which is also the address of the next one (an address is never handed out twice).
\<close>

record state =
  tsp :: rdstr_cyclic
  heap :: "addr \<rightharpoonup> string"
  brk :: addr

text \<open>The thread-local object as the loader leaves it: all bytes zero.\<close>

definition cyc_zero :: rdstr_cyclic where
  "cyc_zero = \<lparr>cyc_size = 0, cyc_buf = [], cyc_len = [], cyc_i = 0\<rparr>"

definition fresh_thread :: state where
  "fresh_thread = \<lparr>tsp = cyc_zero, heap = Map.empty, brk = 0\<rparr>"

subsection \<open>The C library\<close>

definition NUL :: char where
  "NUL = CHR 0x00"

text \<open>\<^verbatim>\<open>calloc(sizeof(*p), n)\<close>: \<open>n\<close> zeroed elements (none when \<open>n\<close> is not positive).\<close>

definition calloc :: "int \<Rightarrow> 'a \<Rightarrow> 'a list" where
  "calloc n z = replicate (nat n) z"

text \<open>
  \<^verbatim>\<open>malloc(n)\<close>: a new live block of \<open>n\<close> bytes. Their values are of no consequence:
  \<^verbatim>\<open>rd_tsprintf\<close> writes all \<open>n\<close> bytes of a block it has allocated before it returns.
\<close>

definition malloc :: "int \<Rightarrow> state \<Rightarrow> addr \<times> state" where
  "malloc n st =
     (brk st, st\<lparr>heap := (heap st)(brk st \<mapsto> replicate (nat n) NUL), brk := Suc (brk st)\<rparr>)"

text \<open>\<^verbatim>\<open>free(p)\<close> for \<open>p\<close> not \<^verbatim>\<open>NULL\<close>.\<close>

definition free :: "addr \<Rightarrow> state \<Rightarrow> fault + state" where
  "free p st =
     (if heap st p = None then Inl Bad_Free else Inr (st\<lparr>heap := (heap st)(p := None)\<rparr>))"

text \<open>
  What \<^verbatim>\<open>vsnprintf\<close> makes of a format and its arguments: an error, or the text. Both calls
  in \<^verbatim>\<open>rd_tsprintf\<close> receive the same format and arguments, hence the same \<open>fmt\<close>.
\<close>

datatype fmt = Fmt_Error | Fmt_Ok string

text \<open>\<^verbatim>\<open>vsnprintf(NULL, 0, format, ap)\<close>: the length of the text, negative on error.\<close>

definition vsnprintf_len :: "fmt \<Rightarrow> int" where
  "vsnprintf_len r =
     (case r of
        Fmt_Error \<Rightarrow> - 1
      | Fmt_Ok s \<Rightarrow> if int (length s) > INT_MAX then - 1 else int (length s))"

text \<open>
  \<^verbatim>\<open>vsnprintf(p, n, format, ap)\<close> on the bytes \<open>blk\<close> of the block at \<open>p\<close>: at most
  \<open>n - 1\<close> characters of the text and the terminator are written at the start of the block;
  \<open>None\<close> when that runs over the end of the block.
\<close>

definition vsnprintf_write :: "string \<Rightarrow> nat \<Rightarrow> fmt \<Rightarrow> string option" where
  "vsnprintf_write blk n r =
     (case r of
        Fmt_Error \<Rightarrow> Some blk
      | Fmt_Ok s \<Rightarrow>
          if n = 0 then Some blk
          else let out = take (n - 1) s @ [NUL]
               in if length out \<le> length blk then Some (out @ drop (length out) blk)
                  else None)"

subsection \<open>rdstr_cyclic_get\<close>

definition rdstr_cyclic_get :: "rdstr_cyclic \<Rightarrow> int \<Rightarrow> fault + rdstr_cyclic" where
  "rdstr_cyclic_get cyc sz =
     (if cyc_size cyc = 0 then
        Inr (cyc\<lparr>cyc_size := sz, cyc_buf := calloc sz None, cyc_len := calloc sz 0\<rparr>)
      else if cyc_i cyc + 1 > INT_MAX then Inl Signed_Overflow
      else Inr (cyc\<lparr>cyc_i := (cyc_i cyc + 1) smod cyc_size cyc\<rparr>))"

subsection \<open>rd_tsprintf\<close>

text \<open>
  The test of lines 88 to 91, on \<^verbatim>\<open>cyc->buf[cyc->i]\<close>, \<^verbatim>\<open>cyc->len[cyc->i]\<close> and the
  incremented \<^verbatim>\<open>len\<close>, with C's left-to-right evaluation: \<^verbatim>\<open>len * 4\<close> is computed only
  when the first two disjuncts are false.
\<close>

definition must_replace :: "addr option \<Rightarrow> int \<Rightarrow> int \<Rightarrow> fault + bool" where
  "must_replace b cap n =
     (if b = None then Inr True
      else if cap < n then Inr True
      else if n * 4 > INT_MAX then Inl Signed_Overflow
      else Inr (cap > n * 4 \<and> cap > 64))"

text \<open>Lines 92 to 96: release the old block if there is one, record the length, allocate.\<close>

definition replace_slot :: "nat \<Rightarrow> int \<Rightarrow> state \<Rightarrow> fault + state" where
  "replace_slot x n st =
     (case (case cyc_buf (tsp st) ! x of None \<Rightarrow> Inr st | Some p \<Rightarrow> free p st) of
        Inl f \<Rightarrow> Inl f
      | Inr st1 \<Rightarrow>
          let st2 = st1\<lparr>tsp := (tsp st1)\<lparr>cyc_len := (cyc_len (tsp st1))[x := n]\<rparr>\<rparr>;
              (p, st3) = malloc n st2
          in Inr (st3\<lparr>tsp := (tsp st3)\<lparr>cyc_buf := (cyc_buf (tsp st3))[x := Some p]\<rparr>\<rparr>))"

text \<open>Lines 100 to 104: render into the slot's block and return the block.\<close>

definition render_slot :: "nat \<Rightarrow> fmt \<Rightarrow> state \<Rightarrow> fault + (addr option \<times> state)" where
  "render_slot x r st =
     (case cyc_buf (tsp st) ! x of
        None \<Rightarrow> Inl Bad_Access
      | Some p \<Rightarrow>
          (case heap st p of
             None \<Rightarrow> Inl Bad_Access
           | Some blk \<Rightarrow>
               (case vsnprintf_write blk (nat (cyc_len (tsp st) ! x)) r of
                  None \<Rightarrow> Inl Bad_Access
                | Some blk' \<Rightarrow> Inr (Some p, st\<lparr>heap := (heap st)(p \<mapsto> blk')\<rparr>))))"

text \<open>
  \<open>rd_tsprintf bufcnt st r\<close>: the call in state \<open>st\<close>, where \<open>bufcnt\<close> is the constant
  \<^verbatim>\<open>RD_TSPRINTF_BUFCNT\<close> (declared in a header that is not part of the sources at hand)
  and \<open>r\<close> is what \<^verbatim>\<open>vsnprintf\<close> makes of the arguments. The result is the returned pointer
  (\<open>None\<close> for \<^verbatim>\<open>NULL\<close>) and the state the call leaves.
\<close>

definition rd_tsprintf :: "int \<Rightarrow> state \<Rightarrow> fmt \<Rightarrow> fault + (addr option \<times> state)" where
  "rd_tsprintf bufcnt st r =
     (case rdstr_cyclic_get (tsp st) bufcnt of
        Inl f \<Rightarrow> Inl f
      | Inr cyc \<Rightarrow>
          let st1 = st\<lparr>tsp := cyc\<rparr>; n = vsnprintf_len r
          in if n < 0 then Inr (None, st1)
             else if n + 1 > INT_MAX then Inl Signed_Overflow
             else if cyc_i cyc < 0 \<or> nat (cyc_i cyc) \<ge> length (cyc_buf cyc)
                       \<or> nat (cyc_i cyc) \<ge> length (cyc_len cyc) then Inl Bad_Access
             else
               let x = nat (cyc_i cyc)
               in (case must_replace (cyc_buf cyc ! x) (cyc_len cyc ! x) (n + 1) of
                     Inl f \<Rightarrow> Inl f
                   | Inr False \<Rightarrow> render_slot x r st1
                   | Inr True \<Rightarrow>
                       (case replace_slot x (n + 1) st1 of
                          Inl f \<Rightarrow> Inl f
                        | Inr st2 \<Rightarrow> render_slot x r st2)))"

subsection \<open>rd_string_thread_cleanup\<close>

text \<open>
  The loop of lines 134 to 136 from index \<open>j\<close> on; \<open>cyc\<close> is the thread-local object,
  which the loop reads and does not write.
\<close>

function cleanup_loop :: "rdstr_cyclic \<Rightarrow> int \<Rightarrow> state \<Rightarrow> fault + state" where
  "cleanup_loop cyc j st =
     (if j < cyc_size cyc then
        (if j < 0 \<or> nat j \<ge> length (cyc_buf cyc) then Inl Bad_Access
         else (case cyc_buf cyc ! nat j of
                 None \<Rightarrow> cleanup_loop cyc (j + 1) st
               | Some p \<Rightarrow>
                   (case free p st of
                      Inl f \<Rightarrow> Inl f
                    | Inr st' \<Rightarrow> cleanup_loop cyc (j + 1) st')))
      else Inr st)"
  by pat_completeness auto
termination
  by (relation "measure (\<lambda>(cyc, j, st). nat (cyc_size cyc - j))") auto

definition rd_string_thread_cleanup :: "state \<Rightarrow> fault + state" where
  "rd_string_thread_cleanup st =
     (if cyc_size (tsp st) \<noteq> 0 then
        (case cleanup_loop (tsp st) 0 st of
           Inl f \<Rightarrow> Inl f
         | Inr st' \<Rightarrow>
             Inr (st'\<lparr>tsp := (tsp st')\<lparr>cyc_buf := [], cyc_len := [], cyc_size := 0\<rparr>\<rparr>))
      else Inr st)"

subsection \<open>A thread's calls in order\<close>

text \<open>
  The two entry points of the pool as a thread calls them. \<open>run\<close> carries the state
  from call to call and stops at the first fault.
\<close>

datatype call = Render fmt | Teardown

fun run :: "int \<Rightarrow> call list \<Rightarrow> state \<Rightarrow> fault + state" where
  "run k [] st = Inr st"
| "run k (Render r # cs) st =
     (case rd_tsprintf k st r of Inl f \<Rightarrow> Inl f | Inr (v, st') \<Rightarrow> run k cs st')"
| "run k (Teardown # cs) st =
     (case rd_string_thread_cleanup st of Inl f \<Rightarrow> Inl f | Inr st' \<Rightarrow> run k cs st')"

text \<open>
  The cursor after each of a thread's successive calls of \<^verbatim>\<open>rd_tsprintf\<close>, that is, the
  slot each call uses; the list ends at the first fault.
\<close>

fun slots_used :: "int \<Rightarrow> fmt list \<Rightarrow> state \<Rightarrow> int list" where
  "slots_used k [] st = []"
| "slots_used k (r # rs) st =
     (case rd_tsprintf k st r of
        Inl f \<Rightarrow> []
      | Inr (v, st') \<Rightarrow> cyc_i (tsp st') # slots_used k rs st')"

text \<open>
  What the caller finds behind the pointer a call returns: nothing for \<^verbatim>\<open>NULL\<close>, else the
  bytes of the block.
\<close>

definition returned_text :: "fault + (addr option \<times> state) \<Rightarrow> fault + string option" where
  "returned_text res =
     (case res of
        Inl f \<Rightarrow> Inl f
      | Inr (v, st) \<Rightarrow> Inr (case v of None \<Rightarrow> None | Some p \<Rightarrow> heap st p))"

subsection \<open>Invariants\<close>

text \<open>
  The shape of the thread-local object for the constant \<open>k\<close>: the cursor is an index
  below \<open>k\<close>; the pool is either uninitialised, with no array behind either pointer,
  or has \<open>k\<close> entries in both arrays.
\<close>

definition struct_inv :: "int \<Rightarrow> rdstr_cyclic \<Rightarrow> bool" where
  "struct_inv k cyc \<longleftrightarrow>
     1 \<le> k \<and> k \<le> INT_MAX \<and> 0 \<le> cyc_i cyc \<and> cyc_i cyc < k \<and>
     (if cyc_size cyc = 0 then cyc_buf cyc = [] \<and> cyc_len cyc = []
      else cyc_size cyc = k \<and> length (cyc_buf cyc) = nat k \<and> length (cyc_len cyc) = nat k)"

text \<open>C's \<^verbatim>\<open>strlen\<close> on the bytes of a block.\<close>

definition strlen :: "string \<Rightarrow> nat" where
  "strlen blk = length (takeWhile (\<lambda>c. c \<noteq> NUL) blk)"

text \<open>
  A slot and the heap agree: an entry without storage has length 0; otherwise the block is
  live, as long as the entry records, and holds a terminated string.
\<close>

definition slot_ok :: "(addr \<rightharpoonup> string) \<Rightarrow> addr option \<Rightarrow> int \<Rightarrow> bool" where
  "slot_ok h b cap =
     (case b of
        None \<Rightarrow> cap = 0
      | Some p \<Rightarrow>
          (case h p of
             None \<Rightarrow> False
           | Some blk \<Rightarrow> int (length blk) = cap \<and> strlen blk < length blk))"

definition slots_ok :: "state \<Rightarrow> bool" where
  "slots_ok st \<longleftrightarrow>
     (\<forall>y < length (cyc_buf (tsp st)). slot_ok (heap st) (cyc_buf (tsp st) ! y) (cyc_len (tsp st) ! y))"

text \<open>No two entries share a block.\<close>

definition slots_distinct :: "rdstr_cyclic \<Rightarrow> bool" where
  "slots_distinct cyc \<longleftrightarrow>
     (\<forall>y < length (cyc_buf cyc). \<forall>z < length (cyc_buf cyc).
        cyc_buf cyc ! y \<noteq> None \<longrightarrow> cyc_buf cyc ! y = cyc_buf cyc ! z \<longrightarrow> y = z)"

text \<open>Every live block was handed out by \<^verbatim>\<open>malloc\<close> before.\<close>

definition heap_bounded :: "state \<Rightarrow> bool" where
  "heap_bounded st \<longleftrightarrow> (\<forall>p. heap st p \<noteq> None \<longrightarrow> p < brk st)"

definition pool_inv :: "int \<Rightarrow> state \<Rightarrow> bool" where
  "pool_inv k st \<longleftrightarrow>
     struct_inv k (tsp st) \<and> slots_ok st \<and> slots_distinct (tsp st) \<and> heap_bounded st"

text \<open>
  The states a new thread reaches by calls of \<^verbatim>\<open>rd_tsprintf\<close> and
  \<^verbatim>\<open>rd_string_thread_cleanup\<close>, each with the text most recently rendered into every slot
  of the present pool (a cleanup destroys the slots, so it forgets all of them).
\<close>

inductive last_rendered :: "int \<Rightarrow> state \<Rightarrow> (nat \<rightharpoonup> string) \<Rightarrow> bool" for k where
  start: "last_rendered k fresh_thread Map.empty"
| rendered: "last_rendered k st m \<Longrightarrow> rd_tsprintf k st (Fmt_Ok s) = Inr (Some p, st') \<Longrightarrow>
     last_rendered k st' (m(nat (cyc_i (tsp st')) \<mapsto> s))"
| failed: "last_rendered k st m \<Longrightarrow> rd_tsprintf k st r = Inr (None, st') \<Longrightarrow>
     last_rendered k st' m"
| torn_down: "last_rendered k st m \<Longrightarrow> rd_string_thread_cleanup st = Inr st' \<Longrightarrow>
     last_rendered k st' Map.empty"

code_pred last_rendered .

section \<open>Properties of the embedding\<close>

subsection \<open>Single steps\<close>

lemma smod_nonneg: "0 \<le> a \<Longrightarrow> 0 < b \<Longrightarrow> (a::int) smod b = a mod b"
  by (simp add: smod_int_alt_def sgn_if)

lemma get_uninit:
  "cyc_size cyc = 0 \<Longrightarrow>
   rdstr_cyclic_get cyc k =
     Inr (cyc\<lparr>cyc_size := k, cyc_buf := replicate (nat k) None, cyc_len := replicate (nat k) 0\<rparr>)"
  by (simp add: rdstr_cyclic_get_def calloc_def)

lemma get_init:
  "cyc_size cyc \<noteq> 0 \<Longrightarrow> cyc_i cyc < INT_MAX \<Longrightarrow>
   rdstr_cyclic_get cyc k = Inr (cyc\<lparr>cyc_i := (cyc_i cyc + 1) smod cyc_size cyc\<rparr>)"
  by (simp add: rdstr_cyclic_get_def)

lemma struct_inv_get:
  assumes "struct_inv k cyc"
  shows "\<exists>c. rdstr_cyclic_get cyc k = Inr c \<and> struct_inv k c \<and> cyc_size c = k \<and>
             cyc_i c = (if cyc_size cyc = 0 then cyc_i cyc else (cyc_i cyc + 1) mod k)"
proof (cases "cyc_size cyc = 0")
  case True
  with assms show ?thesis
    by (simp add: get_uninit struct_inv_def)
next
  case False
  with assms have "cyc_i cyc < INT_MAX" "cyc_size cyc = k" "0 \<le> cyc_i cyc + 1" "0 < k"
    by (auto simp: struct_inv_def)
  with assms False show ?thesis
    by (simp add: get_init struct_inv_def smod_nonneg)
qed

lemma get_cases:
  assumes "rdstr_cyclic_get cyc k = Inr c"
  shows "cyc_size cyc = 0 \<and>
           c = cyc\<lparr>cyc_size := k, cyc_buf := replicate (nat k) None, cyc_len := replicate (nat k) 0\<rparr>
         \<or> cyc_size cyc \<noteq> 0 \<and> c = cyc\<lparr>cyc_i := (cyc_i cyc + 1) smod cyc_size cyc\<rparr>"
  using assms by (auto simp: rdstr_cyclic_get_def calloc_def split: if_splits)

lemma vsnprintf_write_length:
  "vsnprintf_write blk n r = Some blk' \<Longrightarrow> length blk' = length blk"
  by (auto simp: vsnprintf_write_def Let_def split: fmt.splits if_splits)

lemma vsnprintf_write_fits:
  assumes "vsnprintf_write blk n (Fmt_Ok s) = Some blk'" "length s < n"
  shows "blk' = s @ NUL # drop (Suc (length s)) blk \<and> Suc (length s) \<le> length blk"
  using assms by (auto simp: vsnprintf_write_def Let_def split: if_splits)

lemma vsnprintf_write_ok:
  "length s < n \<Longrightarrow> n \<le> length blk \<Longrightarrow>
   vsnprintf_write blk n (Fmt_Ok s) = Some (s @ NUL # drop (Suc (length s)) blk)"
  by (auto simp: vsnprintf_write_def Let_def)

lemma strlen_written: "strlen (s @ NUL # rest) < length (s @ NUL # rest)"
proof -
  have "length (takeWhile (\<lambda>c. c \<noteq> NUL) (s @ NUL # rest)) \<le> length s"
    by (induction s) auto
  then show ?thesis by (simp add: strlen_def)
qed

lemma render_slot_cases:
  assumes "render_slot x r st = Inr (v, st')"
  shows "\<exists>p blk blk'. cyc_buf (tsp st) ! x = Some p \<and> v = Some p \<and> heap st p = Some blk \<and>
           vsnprintf_write blk (nat (cyc_len (tsp st) ! x)) r = Some blk' \<and>
           st' = st\<lparr>heap := (heap st)(p \<mapsto> blk')\<rparr>"
  using assms by (cases "cyc_buf (tsp st) ! x") (auto simp: render_slot_def split: option.splits)

lemma replace_slot_cases:
  assumes "replace_slot x n st = Inr st'"
  shows "tsp st' = (tsp st)\<lparr>cyc_len := (cyc_len (tsp st))[x := n],
                             cyc_buf := (cyc_buf (tsp st))[x := Some (brk st)]\<rparr> \<and>
         brk st' = Suc (brk st) \<and>
         heap st' = (case cyc_buf (tsp st) ! x of None \<Rightarrow> heap st | Some q \<Rightarrow> (heap st)(q := None))
                      (brk st \<mapsto> replicate (nat n) NUL) \<and>
         (\<forall>q. cyc_buf (tsp st) ! x = Some q \<longrightarrow> heap st q \<noteq> None)"
  using assms
  by (cases "cyc_buf (tsp st) ! x")
     (auto simp: replace_slot_def malloc_def free_def split: if_splits)

lemma rd_tsprintf_fail:
  "vsnprintf_len r < 0 \<Longrightarrow>
   rd_tsprintf k st r =
     (case rdstr_cyclic_get (tsp st) k of Inl f \<Rightarrow> Inl f | Inr cyc \<Rightarrow> Inr (None, st\<lparr>tsp := cyc\<rparr>))"
  by (simp add: rd_tsprintf_def Let_def split: sum.splits)

lemma rd_tsprintf_cases:
  assumes "rd_tsprintf k st r = Inr (v, st')"
  shows "\<exists>cyc. rdstr_cyclic_get (tsp st) k = Inr cyc \<and>
          (vsnprintf_len r < 0 \<and> v = None \<and> st' = st\<lparr>tsp := cyc\<rparr>
           \<or> 0 \<le> vsnprintf_len r \<and> vsnprintf_len r < INT_MAX \<and> 0 \<le> cyc_i cyc \<and>
             nat (cyc_i cyc) < length (cyc_buf cyc) \<and> nat (cyc_i cyc) < length (cyc_len cyc) \<and>
             (must_replace (cyc_buf cyc ! nat (cyc_i cyc)) (cyc_len cyc ! nat (cyc_i cyc))
                  (vsnprintf_len r + 1) = Inr False \<and>
                render_slot (nat (cyc_i cyc)) r (st\<lparr>tsp := cyc\<rparr>) = Inr (v, st')
              \<or> must_replace (cyc_buf cyc ! nat (cyc_i cyc)) (cyc_len cyc ! nat (cyc_i cyc))
                  (vsnprintf_len r + 1) = Inr True \<and>
                (\<exists>st2. replace_slot (nat (cyc_i cyc)) (vsnprintf_len r + 1) (st\<lparr>tsp := cyc\<rparr>) = Inr st2 \<and>
                       render_slot (nat (cyc_i cyc)) r st2 = Inr (v, st'))))"
  using assms
  by (auto simp: rd_tsprintf_def Let_def split: sum.splits if_splits bool.splits)

lemma must_replace_iff:
  "must_replace b cap n = Inr d \<Longrightarrow> d \<longleftrightarrow> (b = None \<or> cap < n \<or> (cap > n * 4 \<and> cap > 64))"
  by (auto simp: must_replace_def split: if_splits)

lemma pool_inv_fresh: "1 \<le> k \<Longrightarrow> k \<le> INT_MAX \<Longrightarrow> pool_inv k fresh_thread"
  by (simp add: pool_inv_def struct_inv_def slots_ok_def slots_distinct_def heap_bounded_def
      fresh_thread_def cyc_zero_def)

lemma slot_ok_None [simp]: "slot_ok h None cap \<longleftrightarrow> cap = 0"
  by (simp add: slot_ok_def)

lemma slot_ok_Some:
  "slot_ok h (Some p) cap \<longleftrightarrow> (\<exists>blk. h p = Some blk \<and> int (length blk) = cap \<and> strlen blk < length blk)"
  by (simp add: slot_ok_def split: option.splits)

lemma pool_inv_acquire:
  assumes "pool_inv k st" "rdstr_cyclic_get (tsp st) k = Inr c"
  shows "pool_inv k (st\<lparr>tsp := c\<rparr>) \<and> cyc_size c = k"
proof -
  from assms(1) have si: "struct_inv k (tsp st)" by (simp add: pool_inv_def)
  from struct_inv_get [OF si] assms(2) have c: "struct_inv k c" "cyc_size c = k" by auto
  from get_cases [OF assms(2)] show ?thesis
  proof
    assume "cyc_size (tsp st) = 0 \<and>
      c = (tsp st)\<lparr>cyc_size := k, cyc_buf := replicate (nat k) None, cyc_len := replicate (nat k) 0\<rparr>"
    with assms(1) c show ?thesis
      by (simp add: pool_inv_def slots_ok_def slots_distinct_def heap_bounded_def)
  next
    assume "cyc_size (tsp st) \<noteq> 0 \<and> c = (tsp st)\<lparr>cyc_i := (cyc_i (tsp st) + 1) smod cyc_size (tsp st)\<rparr>"
    with assms(1) c show ?thesis
      by (auto simp: pool_inv_def slots_ok_def slots_distinct_def heap_bounded_def)
  qed
qed

lemma slot_ok_heap_upd:
  assumes "slot_ok h b cap" "h p = Some blk" "length blk' = length blk"
    "strlen blk' < length blk'"
  shows "slot_ok (h(p \<mapsto> blk')) b cap"
  using assms by (cases b) (auto simp: slot_ok_Some)

lemma slot_live:
  assumes "pool_inv k st" "y < length (cyc_buf (tsp st))" "cyc_buf (tsp st) ! y = Some q"
  shows "heap st q \<noteq> None" and "q < brk st"
proof -
  from assms have "slot_ok (heap st) (Some q) (cyc_len (tsp st) ! y)"
    by (auto simp: pool_inv_def slots_ok_def)
  then show "heap st q \<noteq> None" by (auto simp: slot_ok_Some)
  with assms(1) show "q < brk st" by (simp add: pool_inv_def heap_bounded_def)
qed

lemma pool_inv_render_slot:
  assumes inv: "pool_inv k st" and r: "render_slot x (Fmt_Ok s) st = Inr (v, st')"
    and fits: "int (length s) < cyc_len (tsp st) ! x"
  shows "pool_inv k st'"
proof -
  from render_slot_cases [OF r] obtain p blk blk' where
    p: "cyc_buf (tsp st) ! x = Some p" "v = Some p" "heap st p = Some blk"
    and w: "vsnprintf_write blk (nat (cyc_len (tsp st) ! x)) (Fmt_Ok s) = Some blk'"
    and st': "st' = st\<lparr>heap := (heap st)(p \<mapsto> blk')\<rparr>"
    by blast
  from fits have "length s < nat (cyc_len (tsp st) ! x)" by simp
  from vsnprintf_write_fits [OF w this] have blk': "blk' = s @ NUL # drop (Suc (length s)) blk" ..
  have len: "length blk' = length blk" using w by (rule vsnprintf_write_length)
  have sl: "strlen blk' < length blk'" unfolding blk' by (rule strlen_written)
  have "slots_ok st'"
    using inv slot_ok_heap_upd [where h = "heap st" and p = p, OF _ p(3) len sl]
    unfolding pool_inv_def slots_ok_def st' by simp
  moreover have "heap_bounded st'"
    using inv p(3) by (auto simp: pool_inv_def heap_bounded_def st')
  ultimately show ?thesis
    using inv by (simp add: pool_inv_def st')
qed

lemma replace_slot_inv:
  assumes inv: "pool_inv k st" and x: "x < length (cyc_buf (tsp st))"
    and sz: "cyc_size (tsp st) \<noteq> 0"
    and r: "replace_slot x n st = Inr st'"
  shows "struct_inv k (tsp st')"
    and "\<forall>y < length (cyc_buf (tsp st')). y \<noteq> x \<longrightarrow>
           slot_ok (heap st') (cyc_buf (tsp st') ! y) (cyc_len (tsp st') ! y)"
    and "slots_distinct (tsp st')"
    and "heap_bounded st'"
proof -
  note rc = replace_slot_cases [OF r]
  let ?buf = "cyc_buf (tsp st)"
  note live = slot_live(2) [OF inv]
  show "struct_inv k (tsp st')"
    using inv sz rc by (simp add: pool_inv_def struct_inv_def)
  show "heap_bounded st'"
    using inv rc by (auto simp: pool_inv_def heap_bounded_def less_Suc_eq split: option.splits if_splits)
  show "slots_distinct (tsp st')"
    unfolding slots_distinct_def
  proof (intro allI impI)
    fix y z
    assume yz: "y < length (cyc_buf (tsp st'))" "z < length (cyc_buf (tsp st'))"
      "cyc_buf (tsp st') ! y \<noteq> None" "cyc_buf (tsp st') ! y = cyc_buf (tsp st') ! z"
    have b': "cyc_buf (tsp st') = ?buf[x := Some (brk st)]" using rc by simp
    from yz b' have l: "y < length ?buf" "z < length ?buf" by simp_all
    show "y = z"
    proof (cases "y = x \<or> z = x")
      case True
      then show ?thesis
        using yz l live [of y "brk st"] live [of z "brk st"]
        by (auto simp: b' nth_list_update split: if_splits)
    next
      case False
      with yz l inv show ?thesis
        by (simp add: b' pool_inv_def slots_distinct_def)
    qed
  qed
  show "\<forall>y < length (cyc_buf (tsp st')). y \<noteq> x \<longrightarrow>
           slot_ok (heap st') (cyc_buf (tsp st') ! y) (cyc_len (tsp st') ! y)"
  proof (intro allI impI)
    fix y assume y: "y < length (cyc_buf (tsp st'))" "y \<noteq> x"
    then have ly: "y < length ?buf" using rc by simp
    have same: "cyc_buf (tsp st') ! y = ?buf ! y" "cyc_len (tsp st') ! y = cyc_len (tsp st) ! y"
      using rc y by simp_all
    from inv ly have ok: "slot_ok (heap st) (?buf ! y) (cyc_len (tsp st) ! y)"
      by (simp add: pool_inv_def slots_ok_def)
    show "slot_ok (heap st') (cyc_buf (tsp st') ! y) (cyc_len (tsp st') ! y)"
    proof (cases "?buf ! y")
      case None
      with ok same show ?thesis by simp
    next
      case (Some q)
      from live [OF ly Some] have q1: "q \<noteq> brk st" by simp
      have q2: "?buf ! x \<noteq> Some q"
        using inv ly x y(2) Some by (auto simp: pool_inv_def slots_distinct_def)
      have "heap st' q = heap st q"
        using rc q1 q2 by (auto split: option.splits)
      with ok same Some show ?thesis by (simp add: slot_ok_Some)
    qed
  qed
qed

lemma strlen_replicate_NUL: "0 < n \<Longrightarrow> strlen (replicate n NUL) < length (replicate n NUL)"
  by (cases n) (simp_all add: strlen_def)

lemma pool_inv_replace_slot:
  assumes inv: "pool_inv k st" and x: "x < length (cyc_buf (tsp st))"
    and sz: "cyc_size (tsp st) \<noteq> 0" and n: "0 < n"
    and r: "replace_slot x n st = Inr st'"
  shows "pool_inv k st'"
proof -
  note rc = replace_slot_cases [OF r]
  note parts = replace_slot_inv [OF inv x sz r]
  have lx: "x < length (cyc_len (tsp st))"
    using inv x sz by (simp add: pool_inv_def struct_inv_def)
  have "slot_ok (heap st') (cyc_buf (tsp st') ! x) (cyc_len (tsp st') ! x)"
    using rc x lx n strlen_replicate_NUL [of "nat n"] by (simp add: slot_ok_Some)
  with parts(2) have "slots_ok st'"
    unfolding slots_ok_def by blast
  with parts show ?thesis by (simp add: pool_inv_def)
qed

lemma rd_tsprintf_Some:
  assumes ok: "rd_tsprintf k st (Fmt_Ok s) = Inr (Some p, st')"
    and get: "rdstr_cyclic_get (tsp st) k = Inr cyc"
  shows "int (length s) < INT_MAX"
    and "nat (cyc_i cyc) < length (cyc_buf cyc)" and "nat (cyc_i cyc) < length (cyc_len cyc)"
    and "0 \<le> cyc_i cyc"
    and "\<exists>d. must_replace (cyc_buf cyc ! nat (cyc_i cyc)) (cyc_len cyc ! nat (cyc_i cyc))
                 (int (length s) + 1) = Inr d \<and>
             (if d then \<exists>st2. replace_slot (nat (cyc_i cyc)) (int (length s) + 1) (st\<lparr>tsp := cyc\<rparr>) = Inr st2 \<and>
                         render_slot (nat (cyc_i cyc)) (Fmt_Ok s) st2 = Inr (Some p, st')
              else render_slot (nat (cyc_i cyc)) (Fmt_Ok s) (st\<lparr>tsp := cyc\<rparr>) = Inr (Some p, st'))"
proof -
  from ok get have l: "\<not> int (length s) > INT_MAX"
    by (simp add: rd_tsprintf_def vsnprintf_len_def split: if_splits)
  with ok get show l2: "int (length s) < INT_MAX"
    by (simp add: rd_tsprintf_def vsnprintf_len_def Let_def split: if_splits)
  from ok get l l2 show r: "nat (cyc_i cyc) < length (cyc_buf cyc)" "nat (cyc_i cyc) < length (cyc_len cyc)"
    "0 \<le> cyc_i cyc"
    by (simp_all add: rd_tsprintf_def vsnprintf_len_def Let_def split: if_splits)
  from ok get l l2 r show "\<exists>d. must_replace (cyc_buf cyc ! nat (cyc_i cyc)) (cyc_len cyc ! nat (cyc_i cyc))
                 (int (length s) + 1) = Inr d \<and>
             (if d then \<exists>st2. replace_slot (nat (cyc_i cyc)) (int (length s) + 1) (st\<lparr>tsp := cyc\<rparr>) = Inr st2 \<and>
                         render_slot (nat (cyc_i cyc)) (Fmt_Ok s) st2 = Inr (Some p, st')
              else render_slot (nat (cyc_i cyc)) (Fmt_Ok s) (st\<lparr>tsp := cyc\<rparr>) = Inr (Some p, st'))"
    by (cases "must_replace (cyc_buf cyc ! nat (cyc_i cyc)) (cyc_len cyc ! nat (cyc_i cyc))
                 (int (length s) + 1)")
       (auto simp: rd_tsprintf_def vsnprintf_len_def Let_def split: sum.splits)
qed

lemma rd_tsprintf_kept:
  assumes ok: "rd_tsprintf k st (Fmt_Ok s) = Inr (Some p, st')"
    and get: "rdstr_cyclic_get (tsp st) k = Inr cyc"
    and keep: "\<not> (cyc_buf cyc ! nat (cyc_i cyc) = None
                 \<or> cyc_len cyc ! nat (cyc_i cyc) < int (length s) + 1
                 \<or> (cyc_len cyc ! nat (cyc_i cyc) > (int (length s) + 1) * 4
                     \<and> cyc_len cyc ! nat (cyc_i cyc) > 64))"
  shows "\<exists>q blk. cyc_buf cyc ! nat (cyc_i cyc) = Some q \<and> p = q \<and> heap st q = Some blk \<and>
           Suc (length s) \<le> length blk \<and>
           st' = st\<lparr>tsp := cyc, heap := (heap st)(q \<mapsto> s @ NUL # drop (Suc (length s)) blk)\<rparr>"
proof -
  let ?x = "nat (cyc_i cyc)"
  from rd_tsprintf_Some(5) [OF ok get] obtain d where
    d: "must_replace (cyc_buf cyc ! ?x) (cyc_len cyc ! ?x) (int (length s) + 1) = Inr d"
    and rs': "if d then \<exists>st2. replace_slot ?x (int (length s) + 1) (st\<lparr>tsp := cyc\<rparr>) = Inr st2 \<and>
                         render_slot ?x (Fmt_Ok s) st2 = Inr (Some p, st')
              else render_slot ?x (Fmt_Ok s) (st\<lparr>tsp := cyc\<rparr>) = Inr (Some p, st')"
    by blast
  from must_replace_iff [OF d] keep have "\<not> d" by blast
  with rs' have rs: "render_slot ?x (Fmt_Ok s) (st\<lparr>tsp := cyc\<rparr>) = Inr (Some p, st')" by simp
  from render_slot_cases [OF rs] obtain q blk blk' where
    q: "cyc_buf cyc ! ?x = Some q" "p = q" "heap st q = Some blk"
    and w: "vsnprintf_write blk (nat (cyc_len cyc ! ?x)) (Fmt_Ok s) = Some blk'"
    and st': "st' = st\<lparr>tsp := cyc, heap := (heap st)(q \<mapsto> blk')\<rparr>"
    by auto
  from keep have "\<not> cyc_len cyc ! ?x < int (length s) + 1" by blast
  then have "length s < nat (cyc_len cyc ! ?x)" by linarith
  from vsnprintf_write_fits [OF w this] q st' show ?thesis by simp
qed

lemma rd_tsprintf_replaced:
  assumes ok: "rd_tsprintf k st (Fmt_Ok s) = Inr (Some p, st')"
    and get: "rdstr_cyclic_get (tsp st) k = Inr cyc"
    and repl: "cyc_buf cyc ! nat (cyc_i cyc) = None
                 \<or> cyc_len cyc ! nat (cyc_i cyc) < int (length s) + 1
                 \<or> (cyc_len cyc ! nat (cyc_i cyc) > (int (length s) + 1) * 4
                     \<and> cyc_len cyc ! nat (cyc_i cyc) > 64)"
  shows "p = brk st \<and>
         (\<forall>q. cyc_buf cyc ! nat (cyc_i cyc) = Some q \<longrightarrow> heap st q \<noteq> None) \<and>
         st' = st\<lparr>tsp := cyc\<lparr>cyc_len := (cyc_len cyc)[nat (cyc_i cyc) := int (length s) + 1],
                              cyc_buf := (cyc_buf cyc)[nat (cyc_i cyc) := Some (brk st)]\<rparr>,
                  heap := (case cyc_buf cyc ! nat (cyc_i cyc) of None \<Rightarrow> heap st
                           | Some q \<Rightarrow> (heap st)(q := None))(brk st \<mapsto> s @ [NUL]),
                  brk := Suc (brk st)\<rparr>"
proof -
  let ?x = "nat (cyc_i cyc)"
  note x = rd_tsprintf_Some(2,3) [OF ok get]
  from rd_tsprintf_Some(5) [OF ok get] obtain d where
    d: "must_replace (cyc_buf cyc ! ?x) (cyc_len cyc ! ?x) (int (length s) + 1) = Inr d"
    and rs': "if d then \<exists>st2. replace_slot ?x (int (length s) + 1) (st\<lparr>tsp := cyc\<rparr>) = Inr st2 \<and>
                         render_slot ?x (Fmt_Ok s) st2 = Inr (Some p, st')
              else render_slot ?x (Fmt_Ok s) (st\<lparr>tsp := cyc\<rparr>) = Inr (Some p, st')"
    by blast
  from must_replace_iff [OF d] repl have "d" by blast
  with rs' obtain st2 where
    rp: "replace_slot ?x (int (length s) + 1) (st\<lparr>tsp := cyc\<rparr>) = Inr st2"
    and rs: "render_slot ?x (Fmt_Ok s) st2 = Inr (Some p, st')"
    by auto
  note rc = replace_slot_cases [OF rp]
  from render_slot_cases [OF rs] obtain q blk blk' where
    q: "cyc_buf (tsp st2) ! ?x = Some q" "p = q" "heap st2 q = Some blk"
    and w: "vsnprintf_write blk (nat (cyc_len (tsp st2) ! ?x)) (Fmt_Ok s) = Some blk'"
    and st': "st' = st2\<lparr>heap := (heap st2)(q \<mapsto> blk')\<rparr>"
    by auto
  from rc x q have qb: "q = brk st" "blk = replicate (Suc (length s)) NUL"
    by (simp_all add: nat_add_distrib)
  from rc x have "length s < nat (cyc_len (tsp st2) ! ?x)" by simp
  from vsnprintf_write_fits [OF w this] qb have blk': "blk' = s @ [NUL]" by simp
  have "tsp st' = tsp st2" "heap st' = (heap st2)(q \<mapsto> blk')" "brk st' = brk st2"
    using st' by simp_all
  with rc q qb blk' show ?thesis
    by (intro conjI state.equality) (auto split: option.splits)
qed

lemma rd_tsprintf_NULL:
  assumes "rd_tsprintf k st r = Inr (None, st')"
  shows "vsnprintf_len r < 0 \<and> (\<exists>cyc. rdstr_cyclic_get (tsp st) k = Inr cyc \<and> st' = st\<lparr>tsp := cyc\<rparr>)"
proof -
  from rd_tsprintf_cases [OF assms] obtain cyc where
    get: "rdstr_cyclic_get (tsp st) k = Inr cyc"
    and c: "vsnprintf_len r < 0 \<and> st' = st\<lparr>tsp := cyc\<rparr>
       \<or> render_slot (nat (cyc_i cyc)) r (st\<lparr>tsp := cyc\<rparr>) = Inr (None, st')
       \<or> (\<exists>st2. render_slot (nat (cyc_i cyc)) r st2 = Inr (None, st'))"
    by blast
  from c show ?thesis
  proof (elim disjE exE)
    assume "vsnprintf_len r < 0 \<and> st' = st\<lparr>tsp := cyc\<rparr>"
    with get show ?thesis by blast
  next
    assume "render_slot (nat (cyc_i cyc)) r (st\<lparr>tsp := cyc\<rparr>) = Inr (None, st')"
    from render_slot_cases [OF this] show ?thesis by simp
  next
    fix st2 assume "render_slot (nat (cyc_i cyc)) r st2 = Inr (None, st')"
    from render_slot_cases [OF this] show ?thesis by simp
  qed
qed

lemma rd_tsprintf_Some_Ok:
  assumes "rd_tsprintf k st r = Inr (Some p, st')"
  shows "\<exists>s. r = Fmt_Ok s"
proof (cases r)
  case Fmt_Error
  with assms show ?thesis
    by (simp add: rd_tsprintf_fail vsnprintf_len_def split: sum.splits)
qed simp

lemma rd_tsprintf_get:
  assumes "rd_tsprintf k st r = Inr (v, st')"
  shows "\<exists>cyc. rdstr_cyclic_get (tsp st) k = Inr cyc"
  using rd_tsprintf_cases [OF assms] by blast

lemma pool_inv_render:
  assumes inv: "pool_inv k st" and ok: "rd_tsprintf k st r = Inr (v, st')"
  shows "pool_inv k st'"
proof (cases v)
  case None
  with ok rd_tsprintf_NULL [of k st r st'] pool_inv_acquire [OF inv] show ?thesis by auto
next
  case (Some p)
  with ok rd_tsprintf_Some_Ok obtain s where r: "r = Fmt_Ok s" by blast
  from ok Some r have ok': "rd_tsprintf k st (Fmt_Ok s) = Inr (Some p, st')" by simp
  from rd_tsprintf_get [OF ok] obtain cyc where get: "rdstr_cyclic_get (tsp st) k = Inr cyc" ..
  let ?x = "nat (cyc_i cyc)"
  let ?st1 = "st\<lparr>tsp := cyc\<rparr>"
  from pool_inv_acquire [OF inv get] have inv1: "pool_inv k ?st1" and sz: "cyc_size cyc = k" by auto
  from inv1 have k: "1 \<le> k" by (simp add: pool_inv_def struct_inv_def)
  note x = rd_tsprintf_Some(2) [OF ok' get]
  from rd_tsprintf_Some(5) [OF ok' get] obtain d where
    d: "must_replace (cyc_buf cyc ! ?x) (cyc_len cyc ! ?x) (int (length s) + 1) = Inr d"
    and rs: "if d then \<exists>st2. replace_slot ?x (int (length s) + 1) ?st1 = Inr st2 \<and>
                         render_slot ?x (Fmt_Ok s) st2 = Inr (Some p, st')
              else render_slot ?x (Fmt_Ok s) ?st1 = Inr (Some p, st')"
    by blast
  show ?thesis
  proof (cases d)
    case True
    with rs obtain st2 where
      rp: "replace_slot ?x (int (length s) + 1) ?st1 = Inr st2"
      and rn: "render_slot ?x (Fmt_Ok s) st2 = Inr (Some p, st')"
      by auto
    have inv2: "pool_inv k st2"
      using pool_inv_replace_slot [OF inv1 _ _ _ rp] x sz k by simp
    have "int (length s) < cyc_len (tsp st2) ! ?x"
      using replace_slot_cases [OF rp] rd_tsprintf_Some(3) [OF ok' get] by simp
    from pool_inv_render_slot [OF inv2 rn this] show ?thesis .
  next
    case False
    with rs have rn: "render_slot ?x (Fmt_Ok s) ?st1 = Inr (Some p, st')" by simp
    from must_replace_iff [OF d] False have "int (length s) < cyc_len (tsp ?st1) ! ?x"
      by auto
    from pool_inv_render_slot [OF inv1 rn this] show ?thesis .
  qed
qed

lemma rd_tsprintf_fail_total:
  assumes "struct_inv k (tsp st)" "vsnprintf_len r < 0"
  shows "\<exists>cyc. rdstr_cyclic_get (tsp st) k = Inr cyc \<and> rd_tsprintf k st r = Inr (None, st\<lparr>tsp := cyc\<rparr>)"
  using struct_inv_get [OF assms(1)] assms(2) by (auto simp: rd_tsprintf_fail)

lemma rd_tsprintf_returns:
  assumes inv: "pool_inv k st" and short: "int (length s) < INT_MAX"
    and nofl: "\<forall>cyc. rdstr_cyclic_get (tsp st) k = Inr cyc \<longrightarrow>
               cyc_buf cyc ! nat (cyc_i cyc) = None \<or>
               cyc_len cyc ! nat (cyc_i cyc) < int (length s) + 1 \<or>
               (int (length s) + 1) * 4 \<le> INT_MAX"
  shows "\<exists>p st'. rd_tsprintf k st (Fmt_Ok s) = Inr (Some p, st')"
proof -
  from inv have si: "struct_inv k (tsp st)" by (simp add: pool_inv_def)
  from struct_inv_get [OF si] obtain cyc where
    get: "rdstr_cyclic_get (tsp st) k = Inr cyc" and sc: "struct_inv k cyc" "cyc_size cyc = k"
    by blast
  let ?x = "nat (cyc_i cyc)"
  let ?st1 = "st\<lparr>tsp := cyc\<rparr>"
  let ?n = "int (length s) + 1"
  from pool_inv_acquire [OF inv get] have inv1: "pool_inv k ?st1" by simp
  from sc have x: "0 \<le> cyc_i cyc" "?x < length (cyc_buf cyc)" "?x < length (cyc_len cyc)"
    by (auto simp: struct_inv_def split: if_splits)
  from short have len: "vsnprintf_len (Fmt_Ok s) = int (length s)" "int (length s) < INT_MAX"
    by (auto simp: vsnprintf_len_def)
  from nofl get have "cyc_buf cyc ! ?x = None \<or> cyc_len cyc ! ?x < ?n \<or> ?n * 4 \<le> INT_MAX"
    by blast
  then have "\<exists>d. must_replace (cyc_buf cyc ! ?x) (cyc_len cyc ! ?x) ?n = Inr d"
    by (auto simp: must_replace_def)
  then obtain d where d: "must_replace (cyc_buf cyc ! ?x) (cyc_len cyc ! ?x) ?n = Inr d" ..
  have unfold: "rd_tsprintf k st (Fmt_Ok s) =
      (if d then (case replace_slot ?x ?n ?st1 of Inl f \<Rightarrow> Inl f
                  | Inr st2 \<Rightarrow> render_slot ?x (Fmt_Ok s) st2)
       else render_slot ?x (Fmt_Ok s) ?st1)"
    using get x len d by (simp add: rd_tsprintf_def Let_def)
  have render: "\<exists>p st'. render_slot ?x (Fmt_Ok s) st2 = Inr (Some p, st')"
    if inv2: "pool_inv k st2" and same: "cyc_buf (tsp st2) ! ?x \<noteq> None"
      "length (cyc_buf (tsp st2)) = length (cyc_buf cyc)"
      and fits: "?n \<le> cyc_len (tsp st2) ! ?x" for st2
  proof -
    from same obtain q where q: "cyc_buf (tsp st2) ! ?x = Some q" by auto
    from inv2 x same q have "slot_ok (heap st2) (Some q) (cyc_len (tsp st2) ! ?x)"
      by (auto simp: pool_inv_def slots_ok_def)
    then obtain blk where blk: "heap st2 q = Some blk" "int (length blk) = cyc_len (tsp st2) ! ?x"
      by (auto simp: slot_ok_Some)
    with fits have "length s < nat (cyc_len (tsp st2) ! ?x)" "nat (cyc_len (tsp st2) ! ?x) \<le> length blk"
      by auto
    from vsnprintf_write_ok [OF this] q blk show ?thesis
      by (simp add: render_slot_def)
  qed
  show ?thesis
  proof (cases d)
    case False
    with must_replace_iff [OF d] have "cyc_buf (tsp ?st1) ! ?x \<noteq> None" "?n \<le> cyc_len (tsp ?st1) ! ?x"
      by auto
    from render [OF inv1 this(1) _ this(2)] False unfold show ?thesis by simp
  next
    case True
    have "\<exists>st2. replace_slot ?x ?n ?st1 = Inr st2"
    proof (cases "cyc_buf cyc ! ?x")
      case None
      then show ?thesis by (simp add: replace_slot_def malloc_def)
    next
      case (Some q)
      with slot_live(1) [OF inv1, of ?x q] x have "heap st q \<noteq> None" by simp
      with Some show ?thesis by (auto simp: replace_slot_def malloc_def free_def)
    qed
    then obtain st2 where rp: "replace_slot ?x ?n ?st1 = Inr st2" ..
    have inv2: "pool_inv k st2"
      using pool_inv_replace_slot [OF inv1 _ _ _ rp] x sc by (simp add: struct_inv_def)
    from replace_slot_cases [OF rp] x
    have "cyc_buf (tsp st2) ! ?x \<noteq> None" "length (cyc_buf (tsp st2)) = length (cyc_buf cyc)"
      "?n \<le> cyc_len (tsp st2) ! ?x"
      by simp_all
    from render [OF inv2 this] True unfold rp show ?thesis by simp
  qed
qed

lemma rd_tsprintf_progress:
  assumes inv: "pool_inv k st" and small: "(int (length s) + 1) * 4 \<le> INT_MAX"
  shows "\<exists>p st'. rd_tsprintf k st (Fmt_Ok s) = Inr (Some p, st')"
proof (rule rd_tsprintf_returns [OF inv])
  from small show "int (length s) < INT_MAX" by simp
  from small show "\<forall>cyc. rdstr_cyclic_get (tsp st) k = Inr cyc \<longrightarrow>
               cyc_buf cyc ! nat (cyc_i cyc) = None \<or>
               cyc_len cyc ! nat (cyc_i cyc) < int (length s) + 1 \<or>
               (int (length s) + 1) * 4 \<le> INT_MAX"
    by simp
qed

lemma cleanup_loop_frees:
  assumes "slots_distinct cyc" "length (cyc_buf cyc) = nat (cyc_size cyc)" "0 \<le> j"
    and "\<forall>y q. nat j \<le> y \<and> y < length (cyc_buf cyc) \<and> cyc_buf cyc ! y = Some q \<longrightarrow> heap st q \<noteq> None"
  shows "cleanup_loop cyc j st =
           Inr (st\<lparr>heap := (\<lambda>p. if \<exists>y\<ge>nat j. y < length (cyc_buf cyc) \<and> cyc_buf cyc ! y = Some p
                                 then None else heap st p)\<rparr>)"
  using assms
proof (induction "nat (cyc_size cyc - j)" arbitrary: j st)
  case 0
  then have "\<not> j < cyc_size cyc" by simp
  moreover from 0 have "\<not> (\<exists>y\<ge>nat j. y < length (cyc_buf cyc) \<and> cyc_buf cyc ! y = Some p)" for p
    by auto
  then have "(\<lambda>p. if \<exists>y\<ge>nat j. y < length (cyc_buf cyc) \<and> cyc_buf cyc ! y = Some p
                 then None else heap st p) = heap st"
    by (intro ext if_not_P)
  ultimately show ?case by simp
next
  case (Suc n)
  let ?buf = "cyc_buf cyc"
  from Suc.hyps(2) Suc.prems have j: "j < cyc_size cyc" "nat j < length ?buf" "\<not> j < 0"
    by auto
  have n: "n = nat (cyc_size cyc - (j + 1))" using Suc.hyps(2) by simp
  have nj: "nat (j + 1) = Suc (nat j)" using Suc.prems(3) by simp
  show ?case
  proof (cases "?buf ! nat j")
    case None
    have "cleanup_loop cyc j st = cleanup_loop cyc (j + 1) st"
      using j None by (subst cleanup_loop.simps) simp
    also have "\<dots> = Inr (st\<lparr>heap := (\<lambda>p. if \<exists>y\<ge>nat (j + 1). y < length ?buf \<and> ?buf ! y = Some p
                                 then None else heap st p)\<rparr>)"
    proof (intro Suc.hyps(1) [OF n] Suc.prems(1,2) allI impI)
      show "0 \<le> j + 1" using Suc.prems(3) by simp
    next
      fix y q' assume "nat (j + 1) \<le> y \<and> y < length ?buf \<and> ?buf ! y = Some q'"
      then have "nat j \<le> y \<and> y < length ?buf \<and> ?buf ! y = Some q'" by (simp add: nj)
      with Suc.prems(4) show "heap st q' \<noteq> None" by blast
    qed
    also have "(\<lambda>p. if \<exists>y\<ge>nat (j + 1). y < length ?buf \<and> ?buf ! y = Some p then None else heap st p)
             = (\<lambda>p. if \<exists>y\<ge>nat j. y < length ?buf \<and> ?buf ! y = Some p then None else heap st p)"
    proof (rule ext)
      fix p
      have "(\<exists>y\<ge>nat (j + 1). y < length ?buf \<and> ?buf ! y = Some p)
          \<longleftrightarrow> (\<exists>y\<ge>nat j. y < length ?buf \<and> ?buf ! y = Some p)"
        using None by (metis Suc_leD Suc_leI nj le_neq_implies_less option.distinct(1))
      then show "(if \<exists>y\<ge>nat (j + 1). y < length ?buf \<and> ?buf ! y = Some p then None else heap st p)
             = (if \<exists>y\<ge>nat j. y < length ?buf \<and> ?buf ! y = Some p then None else heap st p)"
        by simp
    qed
    finally show ?thesis .
  next
    case (Some q)
    let ?st1 = "st\<lparr>heap := (heap st)(q := None)\<rparr>"
    from Suc.prems(4) j Some have "heap st q \<noteq> None" by blast
    then have fr: "free q st = Inr ?st1" by (simp add: free_def)
    have "cleanup_loop cyc j st = cleanup_loop cyc (j + 1) ?st1"
      using j Some fr by (subst cleanup_loop.simps) simp
    also have "\<dots> = Inr (?st1\<lparr>heap := (\<lambda>p. if \<exists>y\<ge>nat (j + 1). y < length ?buf \<and> ?buf ! y = Some p
                                 then None else heap ?st1 p)\<rparr>)"
    proof (intro Suc.hyps(1) [OF n] Suc.prems(1,2) allI impI)
      show "0 \<le> j + 1" using Suc.prems(3) by simp
    next
      fix y q' assume a: "nat (j + 1) \<le> y \<and> y < length ?buf \<and> ?buf ! y = Some q'"
      then have "nat j \<le> y \<and> y < length ?buf \<and> ?buf ! y = Some q'" by (simp add: nj)
      with Suc.prems(4) have l: "heap st q' \<noteq> None" by blast
      from a Suc.prems(1) j(2) Some have "q' \<noteq> q"
        unfolding slots_distinct_def nj by (metis Suc_n_not_le_n option.distinct(1))
      with l show "heap ?st1 q' \<noteq> None" by simp
    qed
    also have "?st1\<lparr>heap := (\<lambda>p. if \<exists>y\<ge>nat (j + 1). y < length ?buf \<and> ?buf ! y = Some p
                                 then None else heap ?st1 p)\<rparr>
             = st\<lparr>heap := (\<lambda>p. if \<exists>y\<ge>nat j. y < length ?buf \<and> ?buf ! y = Some p
                                 then None else heap st p)\<rparr>"
    proof -
      have "(if \<exists>y\<ge>nat (j + 1). y < length ?buf \<and> ?buf ! y = Some p then None else heap ?st1 p)
          = (if \<exists>y\<ge>nat j. y < length ?buf \<and> ?buf ! y = Some p then None else heap st p)" for p
      proof (cases "p = q")
        case True
        with Some j(2) show ?thesis by auto
      next
        case False
        have "(\<exists>y\<ge>nat (j + 1). y < length ?buf \<and> ?buf ! y = Some p)
          \<longleftrightarrow> (\<exists>y\<ge>nat j. y < length ?buf \<and> ?buf ! y = Some p)"
          using Some False by (metis Suc_leD Suc_leI nj le_neq_implies_less option.inject)
        with False show ?thesis by auto
      qed
      then show ?thesis by simp
    qed
    finally show ?thesis .
  qed
qed

lemma cleanup_total:
  assumes inv: "pool_inv k st" and sz: "cyc_size (tsp st) \<noteq> 0"
  shows "rd_string_thread_cleanup st =
           Inr (st\<lparr>tsp := (tsp st)\<lparr>cyc_buf := [], cyc_len := [], cyc_size := 0\<rparr>,
                    heap := (\<lambda>p. if Some p \<in> set (cyc_buf (tsp st)) then None else heap st p)\<rparr>)"
proof -
  let ?cyc = "tsp st"
  from inv sz have l: "length (cyc_buf ?cyc) = nat (cyc_size ?cyc)"
    by (simp add: pool_inv_def struct_inv_def)
  have live: "\<forall>y q. nat 0 \<le> y \<and> y < length (cyc_buf ?cyc) \<and> cyc_buf ?cyc ! y = Some q \<longrightarrow> heap st q \<noteq> None"
    using slot_live(1) [OF inv] by blast
  from inv have "slots_distinct ?cyc" by (simp add: pool_inv_def)
  from cleanup_loop_frees [OF this l _ live]
  have "cleanup_loop ?cyc 0 st =
          Inr (st\<lparr>heap := (\<lambda>p. if \<exists>y\<ge>nat 0. y < length (cyc_buf ?cyc) \<and> cyc_buf ?cyc ! y = Some p
                                 then None else heap st p)\<rparr>)"
    by simp
  moreover have "(\<exists>y\<ge>nat 0. y < length (cyc_buf ?cyc) \<and> cyc_buf ?cyc ! y = Some p)
      \<longleftrightarrow> Some p \<in> set (cyc_buf ?cyc)" for p
    by (auto simp: in_set_conv_nth)
  ultimately show ?thesis
    using sz by (simp add: rd_string_thread_cleanup_def)
qed

lemma cleanup_noop: "cyc_size (tsp st) = 0 \<Longrightarrow> rd_string_thread_cleanup st = Inr st"
  by (simp add: rd_string_thread_cleanup_def)

lemma pool_inv_cleanup:
  assumes inv: "pool_inv k st" and c: "rd_string_thread_cleanup st = Inr st'"
  shows "pool_inv k st'"
proof (cases "cyc_size (tsp st) = 0")
  case True
  with inv c show ?thesis by (simp add: cleanup_noop)
next
  case False
  from cleanup_total [OF inv False] c inv show ?thesis
    by (auto simp: pool_inv_def struct_inv_def slots_ok_def slots_distinct_def heap_bounded_def)
qed

lemma pool_inv_run:
  "pool_inv k st \<Longrightarrow> run k cs st = Inr st' \<Longrightarrow> pool_inv k st'"
proof (induction cs arbitrary: st)
  case Nil
  then show ?case by simp
next
  case (Cons c cs)
  show ?case
  proof (cases c)
    case (Render r)
    with Cons.prems(2) obtain v st1 where
      "rd_tsprintf k st r = Inr (v, st1)" "run k cs st1 = Inr st'"
      by (auto split: sum.splits)
    with Cons.IH pool_inv_render [OF Cons.prems(1)] show ?thesis by blast
  next
    case Teardown
    with Cons.prems(2) obtain st1 where
      "rd_string_thread_cleanup st = Inr st1" "run k cs st1 = Inr st'"
      by (auto split: sum.splits)
    with Cons.IH pool_inv_cleanup [OF Cons.prems(1)] show ?thesis by blast
  qed
qed

subsection \<open>Sequences of calls\<close>

lemma pool_inv_reachable:
  "1 \<le> k \<Longrightarrow> k \<le> INT_MAX \<Longrightarrow> run k cs fresh_thread = Inr st \<Longrightarrow> pool_inv k st"
  using pool_inv_run [OF pool_inv_fresh] by blast

lemmas rd_tsprintf_eval =
  rd_tsprintf_def rdstr_cyclic_get_def calloc_def vsnprintf_len_def INT_MAX_def must_replace_def
  replace_slot_def malloc_def free_def render_slot_def vsnprintf_write_def Let_def
  smod_int_alt_def

lemma rd_tsprintf_target:
  assumes ok: "rd_tsprintf k st (Fmt_Ok s) = Inr (Some p, st')"
  shows "nat (cyc_i (tsp st')) < length (cyc_len (tsp st'))"
    and "nat (cyc_i (tsp st')) < length (cyc_buf (tsp st'))"
    and "int (length s) < cyc_len (tsp st') ! nat (cyc_i (tsp st'))"
    and "cyc_buf (tsp st') ! nat (cyc_i (tsp st')) = Some p"
proof -
  from rd_tsprintf_get [OF ok] obtain cyc where get: "rdstr_cyclic_get (tsp st) k = Inr cyc" ..
  let ?x = "nat (cyc_i cyc)"
  let ?replace = "cyc_buf cyc ! ?x = None \<or> cyc_len cyc ! ?x < int (length s) + 1
     \<or> (cyc_len cyc ! ?x > (int (length s) + 1) * 4 \<and> cyc_len cyc ! ?x > 64)"
  note x = rd_tsprintf_Some(2,3) [OF ok get]
  have "nat (cyc_i (tsp st')) < length (cyc_len (tsp st')) \<and>
        nat (cyc_i (tsp st')) < length (cyc_buf (tsp st')) \<and>
        int (length s) < cyc_len (tsp st') ! nat (cyc_i (tsp st')) \<and>
        cyc_buf (tsp st') ! nat (cyc_i (tsp st')) = Some p"
  proof (cases ?replace)
    case True
    from rd_tsprintf_replaced [OF ok get True] x show ?thesis by simp
  next
    case False
    from rd_tsprintf_kept [OF ok get False] x False show ?thesis by auto
  qed
  then show "nat (cyc_i (tsp st')) < length (cyc_len (tsp st'))"
    and "nat (cyc_i (tsp st')) < length (cyc_buf (tsp st'))"
    and "int (length s) < cyc_len (tsp st') ! nat (cyc_i (tsp st'))"
    and "cyc_buf (tsp st') ! nat (cyc_i (tsp st')) = Some p"
    by simp_all
qed

lemma rd_tsprintf_frame:
  assumes ok: "rd_tsprintf k st r = Inr (v, st')" and sz: "cyc_size (tsp st) \<noteq> 0"
  shows "length (cyc_len (tsp st')) = length (cyc_len (tsp st))"
    and "length (cyc_buf (tsp st')) = length (cyc_buf (tsp st))"
    and "y \<noteq> nat (cyc_i (tsp st')) \<Longrightarrow> cyc_len (tsp st') ! y = cyc_len (tsp st) ! y"
    and "y \<noteq> nat (cyc_i (tsp st')) \<Longrightarrow> cyc_buf (tsp st') ! y = cyc_buf (tsp st) ! y"
    and "v = None \<Longrightarrow> cyc_len (tsp st') = cyc_len (tsp st) \<and> cyc_buf (tsp st') = cyc_buf (tsp st)"
proof -
  from rd_tsprintf_get [OF ok] obtain cyc where get: "rdstr_cyclic_get (tsp st) k = Inr cyc" ..
  from get_cases [OF get] sz have cyc: "cyc = (tsp st)\<lparr>cyc_i := (cyc_i (tsp st) + 1) smod cyc_size (tsp st)\<rparr>"
    by simp
  let ?x = "nat (cyc_i cyc)"
  have "tsp st' = cyc \<and> v = None \<or>
        v \<noteq> None \<and> (tsp st' = cyc \<or> (\<exists>n q. tsp st' = cyc\<lparr>cyc_len := (cyc_len cyc)[?x := n],
                              cyc_buf := (cyc_buf cyc)[?x := q]\<rparr>))"
  proof (cases v)
    case None
    with ok rd_tsprintf_NULL [of k st r st'] get show ?thesis by auto
  next
    case (Some p)
    with ok rd_tsprintf_Some_Ok obtain s where r: "r = Fmt_Ok s" by blast
    from ok Some r have ok': "rd_tsprintf k st (Fmt_Ok s) = Inr (Some p, st')" by simp
    show ?thesis
    proof (cases "cyc_buf cyc ! ?x = None \<or> cyc_len cyc ! ?x < int (length s) + 1
     \<or> (cyc_len cyc ! ?x > (int (length s) + 1) * 4 \<and> cyc_len cyc ! ?x > 64)")
      case True
      from rd_tsprintf_replaced [OF ok' get True] Some show ?thesis by auto
    next
      case False
      from rd_tsprintf_kept [OF ok' get False] Some show ?thesis by auto
    qed
  qed
  then have shape: "cyc_i (tsp st') = cyc_i cyc \<and>
     (tsp st' = cyc \<or> (\<exists>n q. tsp st' = cyc\<lparr>cyc_len := (cyc_len cyc)[?x := n],
                              cyc_buf := (cyc_buf cyc)[?x := q]\<rparr>))"
    and none: "v = None \<Longrightarrow> tsp st' = cyc"
    by auto
  from shape cyc show "length (cyc_len (tsp st')) = length (cyc_len (tsp st))"
    and "length (cyc_buf (tsp st')) = length (cyc_buf (tsp st))"
    by auto
  from shape cyc show "y \<noteq> nat (cyc_i (tsp st')) \<Longrightarrow> cyc_len (tsp st') ! y = cyc_len (tsp st) ! y"
    and "y \<noteq> nat (cyc_i (tsp st')) \<Longrightarrow> cyc_buf (tsp st') ! y = cyc_buf (tsp st) ! y"
    by auto
  from none cyc show "v = None \<Longrightarrow> cyc_len (tsp st') = cyc_len (tsp st) \<and> cyc_buf (tsp st') = cyc_buf (tsp st)"
    by simp
qed

lemma last_rendered_inv:
  assumes k: "1 \<le> k" "k \<le> INT_MAX" and h: "last_rendered k st m"
  shows "pool_inv k st \<and>
         (\<forall>x t. m x = Some t \<longrightarrow>
            x < length (cyc_len (tsp st)) \<and> int (length t) + 1 \<le> cyc_len (tsp st) ! x \<and>
            cyc_buf (tsp st) ! x \<noteq> None)"
  using h
proof (induction rule: last_rendered.induct)
  case start
  from k show ?case by (simp add: pool_inv_fresh)
next
  case (rendered st m s p st')
  then have inv: "pool_inv k st" by simp
  note ok = rendered.hyps(2)
  from pool_inv_render [OF inv ok] have inv': "pool_inv k st'" .
  note tgt = rd_tsprintf_target [OF ok]
  have "x < length (cyc_len (tsp st')) \<and> int (length t) + 1 \<le> cyc_len (tsp st') ! x \<and>
        cyc_buf (tsp st') ! x \<noteq> None"
    if mx: "(m(nat (cyc_i (tsp st')) \<mapsto> s)) x = Some t" for x t
  proof (cases "x = nat (cyc_i (tsp st'))")
    case True
    with mx tgt show ?thesis by simp
  next
    case False
    with mx have old: "m x = Some t" by simp
    with rendered.IH have o: "x < length (cyc_len (tsp st))"
      "int (length t) + 1 \<le> cyc_len (tsp st) ! x" "cyc_buf (tsp st) ! x \<noteq> None"
      by auto
    from o(1) inv have "cyc_size (tsp st) \<noteq> 0"
      by (auto simp: pool_inv_def struct_inv_def)
    from rd_tsprintf_frame [OF ok this] False o show ?thesis by simp
  qed
  with inv' show ?case by blast
next
  case (failed st m r st')
  then have inv: "pool_inv k st" by simp
  note ok = failed.hyps(2)
  from pool_inv_render [OF inv ok] have inv': "pool_inv k st'" .
  have "x < length (cyc_len (tsp st')) \<and> int (length t) + 1 \<le> cyc_len (tsp st') ! x \<and>
        cyc_buf (tsp st') ! x \<noteq> None"
    if mx: "m x = Some t" for x t
  proof -
    from mx failed.IH have o: "x < length (cyc_len (tsp st))"
      "int (length t) + 1 \<le> cyc_len (tsp st) ! x" "cyc_buf (tsp st) ! x \<noteq> None"
      by auto
    from o(1) inv have "cyc_size (tsp st) \<noteq> 0"
      by (auto simp: pool_inv_def struct_inv_def)
    from rd_tsprintf_frame(5) [OF ok this] o show ?thesis by simp
  qed
  with inv' show ?case by blast
next
  case (torn_down st m st')
  then have "pool_inv k st" by simp
  from pool_inv_cleanup [OF this torn_down.hyps(2)] show ?case by simp
qed

lemma cleanup_loop_tsp:
  "cleanup_loop cyc j st = Inr st' \<Longrightarrow> tsp st' = tsp st \<and> brk st' = brk st"
proof (induction cyc j st rule: cleanup_loop.induct)
  case (1 cyc j st)
  show ?case
  proof (cases "j < cyc_size cyc")
    case False
    with "1.prems" show ?thesis by (simp add: cleanup_loop.simps [of cyc j st])
  next
    case True
    with "1.prems" have r: "\<not> (j < 0 \<or> nat j \<ge> length (cyc_buf cyc))"
      by (auto simp: cleanup_loop.simps [of cyc j st] split: if_splits)
    show ?thesis
    proof (cases "cyc_buf cyc ! nat j")
      case None
      with "1.prems" True r have "cleanup_loop cyc (j + 1) st = Inr st'"
        by (simp add: cleanup_loop.simps [of cyc j st])
      from "1.IH"(1) [OF True r None this] show ?thesis .
    next
      case (Some q)
      with "1.prems" True r obtain st1 where
        f: "free q st = Inr st1" and c: "cleanup_loop cyc (j + 1) st1 = Inr st'"
        by (auto simp: cleanup_loop.simps [of cyc j st] split: sum.splits)
      from f have "tsp st1 = tsp st \<and> brk st1 = brk st"
        by (auto simp: free_def split: if_splits)
      with "1.IH"(2) [OF True r Some f c] show ?thesis by simp
    qed
  qed
qed

lemma struct_inv_render:
  assumes si: "struct_inv k (tsp st)" and ok: "rd_tsprintf k st r = Inr (v, st')"
  shows "struct_inv k (tsp st') \<and> cyc_size (tsp st') = k"
proof -
  from rd_tsprintf_get [OF ok] obtain cyc where get: "rdstr_cyclic_get (tsp st) k = Inr cyc" ..
  from struct_inv_get [OF si] get have c: "struct_inv k cyc" "cyc_size cyc = k" by auto
  let ?x = "nat (cyc_i cyc)"
  show ?thesis
  proof (cases v)
    case None
    with ok rd_tsprintf_NULL [of k st r st'] get c show ?thesis by auto
  next
    case (Some p)
    with ok rd_tsprintf_Some_Ok obtain s where r: "r = Fmt_Ok s" by blast
    from ok Some r have ok': "rd_tsprintf k st (Fmt_Ok s) = Inr (Some p, st')" by simp
    show ?thesis
    proof (cases "cyc_buf cyc ! ?x = None \<or> cyc_len cyc ! ?x < int (length s) + 1
     \<or> (cyc_len cyc ! ?x > (int (length s) + 1) * 4 \<and> cyc_len cyc ! ?x > 64)")
      case True
      from rd_tsprintf_replaced [OF ok' get True] c show ?thesis
        by (auto simp: struct_inv_def)
    next
      case False
      from rd_tsprintf_kept [OF ok' get False] c show ?thesis by auto
    qed
  qed
qed

lemma struct_inv_cleanup:
  assumes si: "struct_inv k (tsp st)" and c: "rd_string_thread_cleanup st = Inr st'"
  shows "struct_inv k (tsp st') \<and> cyc_size (tsp st') = 0"
proof (cases "cyc_size (tsp st) = 0")
  case True
  with si c show ?thesis by (simp add: cleanup_noop)
next
  case False
  with c obtain st1 where l: "cleanup_loop (tsp st) 0 st = Inr st1"
    and st': "st' = st1\<lparr>tsp := (tsp st1)\<lparr>cyc_buf := [], cyc_len := [], cyc_size := 0\<rparr>\<rparr>"
    by (auto simp: rd_string_thread_cleanup_def split: sum.splits)
  from cleanup_loop_tsp [OF l] si show ?thesis
    by (simp add: st' struct_inv_def)
qed

lemma struct_inv_shape:
  assumes "struct_inv k cyc"
  shows "cyc_size cyc = 0 \<longleftrightarrow> cyc_buf cyc = [] \<and> cyc_len cyc = []"
    and "cyc_size cyc = 0 \<or> 0 \<le> cyc_i cyc \<and> cyc_i cyc < cyc_size cyc"
proof -
  from assms have k: "1 \<le> k" "0 \<le> cyc_i cyc" "cyc_i cyc < k" by (simp_all add: struct_inv_def)
  show "cyc_size cyc = 0 \<longleftrightarrow> cyc_buf cyc = [] \<and> cyc_len cyc = []"
  proof (cases "cyc_size cyc = 0")
    case True
    with assms show ?thesis by (simp add: struct_inv_def)
  next
    case False
    with assms have "length (cyc_buf cyc) = nat k" by (simp add: struct_inv_def)
    with k False show ?thesis by auto
  qed
  show "cyc_size cyc = 0 \<or> 0 \<le> cyc_i cyc \<and> cyc_i cyc < cyc_size cyc"
  proof (cases "cyc_size cyc = 0")
    case True
    then show ?thesis by simp
  next
    case False
    with assms have "cyc_size cyc = k" by (simp add: struct_inv_def)
    with k show ?thesis by simp
  qed
qed

lemma struct_inv_get_any:
  assumes si: "struct_inv k cyc" and sz: "cyc_size cyc \<noteq> 0"
    and get: "rdstr_cyclic_get cyc req = Inr c"
  shows "struct_inv k c \<and> cyc_size c = cyc_size cyc"
proof -
  from get_cases [OF get] sz
  have c: "c = cyc\<lparr>cyc_i := (cyc_i cyc + 1) smod cyc_size cyc\<rparr>" by simp
  from si sz have *: "cyc_size cyc = k" "0 \<le> cyc_i cyc + 1" "0 < k" "cyc_i cyc + 1 \<le> k"
    by (simp_all add: struct_inv_def)
  then have "(cyc_i cyc + 1) smod cyc_size cyc = (cyc_i cyc + 1) mod k"
    by (simp add: smod_nonneg)
  moreover have "0 \<le> (cyc_i cyc + 1) mod k" "(cyc_i cyc + 1) mod k < k"
    using * by simp_all
  ultimately show ?thesis
    using si sz unfolding c struct_inv_def by simp
qed

lemma slots_used_nth:
  assumes "struct_inv k (tsp st)" "j < length (slots_used k rs st)"
  shows "slots_used k rs st ! j =
           ((if cyc_size (tsp st) = 0 then cyc_i (tsp st) else cyc_i (tsp st) + 1) + int j) mod k"
  using assms
proof (induction rs arbitrary: st j)
  case Nil
  then show ?case by simp
next
  case (Cons r rs)
  from Cons.prems(2) obtain v st' where ok: "rd_tsprintf k st r = Inr (v, st')"
    by (cases "rd_tsprintf k st r") auto
  from rd_tsprintf_get [OF ok] obtain cyc where get: "rdstr_cyclic_get (tsp st) k = Inr cyc" ..
  from struct_inv_get [OF Cons.prems(1)] get
  have cyc: "cyc_i cyc = (if cyc_size (tsp st) = 0 then cyc_i (tsp st) else (cyc_i (tsp st) + 1) mod k)"
    by auto
  from struct_inv_render [OF Cons.prems(1) ok] have si': "struct_inv k (tsp st')"
    and sz': "cyc_size (tsp st') = k" by simp_all
  have i': "cyc_i (tsp st') = cyc_i cyc"
  proof (cases v)
    case None
    with ok rd_tsprintf_NULL [of k st r st'] get show ?thesis by auto
  next
    case (Some p)
    with ok rd_tsprintf_Some_Ok obtain s where r: "r = Fmt_Ok s" by blast
    from ok Some r have ok': "rd_tsprintf k st (Fmt_Ok s) = Inr (Some p, st')" by simp
    show ?thesis
    proof (cases "cyc_buf cyc ! nat (cyc_i cyc) = None
        \<or> cyc_len cyc ! nat (cyc_i cyc) < int (length s) + 1
        \<or> (cyc_len cyc ! nat (cyc_i cyc) > (int (length s) + 1) * 4
            \<and> cyc_len cyc ! nat (cyc_i cyc) > 64)")
      case True
      from rd_tsprintf_replaced [OF ok' get True] show ?thesis by simp
    next
      case False
      from rd_tsprintf_kept [OF ok' get False] show ?thesis by auto
    qed
  qed
  from Cons.prems(1) have k: "1 \<le> k" "0 \<le> cyc_i (tsp st)" "cyc_i (tsp st) < k"
    by (simp_all add: struct_inv_def)
  show ?case
  proof (cases j)
    case 0
    with ok i' cyc k show ?thesis by simp
  next
    case (Suc j')
    with Cons.prems(2) ok have "j' < length (slots_used k rs st')" by simp
    from Cons.IH [OF si' this] sz' k
    have "slots_used k rs st' ! j' = (cyc_i (tsp st') + (1 + int j')) mod k"
      by (simp add: add.assoc)
    also have "\<dots> = ((if cyc_size (tsp st) = 0 then cyc_i (tsp st) else cyc_i (tsp st) + 1) + int j) mod k"
    proof (cases "cyc_size (tsp st) = 0")
      case True
      then show ?thesis unfolding i' cyc Suc by simp
    next
      case False
      have "((cyc_i (tsp st) + 1) mod k + (1 + int j')) mod k = (cyc_i (tsp st) + 1 + (1 + int j')) mod k"
        by (rule mod_add_left_eq)
      with False show ?thesis unfolding i' cyc Suc by (simp add: add.assoc)
    qed
    finally show ?thesis using ok Suc by simp
  qed
qed

lemma slots_used_length:
  assumes "pool_inv k st"
    and "\<forall>r \<in> set rs. case r of Fmt_Error \<Rightarrow> True | Fmt_Ok s \<Rightarrow> (int (length s) + 1) * 4 \<le> INT_MAX"
  shows "length (slots_used k rs st) = length rs"
  using assms
proof (induction rs arbitrary: st)
  case Nil
  then show ?case by simp
next
  case (Cons r rs)
  have "\<exists>v st'. rd_tsprintf k st r = Inr (v, st')"
  proof (cases r)
    case Fmt_Error
    from Cons.prems(1) have "struct_inv k (tsp st)" by (simp add: pool_inv_def)
    from rd_tsprintf_fail_total [OF this, of r] Fmt_Error show ?thesis
      by (auto simp: vsnprintf_len_def)
  next
    case (Fmt_Ok s)
    with Cons.prems(2) have "(int (length s) + 1) * 4 \<le> INT_MAX" by simp
    from rd_tsprintf_progress [OF Cons.prems(1) this] Fmt_Ok show ?thesis by blast
  qed
  then obtain v st' where ok: "rd_tsprintf k st r = Inr (v, st')" by blast
  from pool_inv_render [OF Cons.prems(1) ok] Cons.prems(2) Cons.IH [of st']
  have "length (slots_used k rs st') = length rs" by simp
  with ok show ?case by simp
qed

lemma rd_tsprintf_uninit:
  assumes si: "struct_inv k (tsp st)" and sz: "cyc_size (tsp st) = 0"
    and len: "int (length s) < INT_MAX"
  shows "rd_tsprintf k st (Fmt_Ok s) =
           Inr (Some (brk st),
                st\<lparr>tsp := (tsp st)\<lparr>cyc_size := k,
                        cyc_buf := (replicate (nat k) None)[nat (cyc_i (tsp st)) := Some (brk st)],
                        cyc_len := (replicate (nat k) 0)[nat (cyc_i (tsp st)) := int (length s) + 1]\<rparr>,
                   heap := (heap st)(brk st \<mapsto> s @ [NUL]),
                   brk := Suc (brk st)\<rparr>)"
proof -
  let ?cyc = "(tsp st)\<lparr>cyc_size := k, cyc_buf := replicate (nat k) None,
                       cyc_len := replicate (nat k) 0\<rparr>"
  let ?x = "nat (cyc_i (tsp st))"
  from si have x: "0 \<le> cyc_i (tsp st)" "?x < nat k" by (auto simp: struct_inv_def)
  have get: "rdstr_cyclic_get (tsp st) k = Inr ?cyc" using sz by (rule get_uninit)
  have n: "vsnprintf_len (Fmt_Ok s) = int (length s)" using len by (simp add: vsnprintf_len_def)
  have m: "must_replace (cyc_buf ?cyc ! ?x) (cyc_len ?cyc ! ?x) (int (length s) + 1) = Inr True"
    using x by (simp add: must_replace_def)
  have rp: "replace_slot ?x (int (length s) + 1) (st\<lparr>tsp := ?cyc\<rparr>) =
      Inr (st\<lparr>tsp := ?cyc\<lparr>cyc_len := (cyc_len ?cyc)[?x := int (length s) + 1],
                          cyc_buf := (cyc_buf ?cyc)[?x := Some (brk st)]\<rparr>,
              heap := (heap st)(brk st \<mapsto> replicate (nat (int (length s) + 1)) NUL),
              brk := Suc (brk st)\<rparr>)"
    using x by (simp add: replace_slot_def malloc_def)
  have w: "vsnprintf_write (replicate (nat (int (length s) + 1)) NUL) (nat (int (length s) + 1)) (Fmt_Ok s)
      = Some (s @ [NUL])"
    by (simp add: vsnprintf_write_def Let_def nat_add_distrib)
  have rs: "render_slot ?x (Fmt_Ok s)
      (st\<lparr>tsp := ?cyc\<lparr>cyc_len := (cyc_len ?cyc)[?x := int (length s) + 1],
                          cyc_buf := (cyc_buf ?cyc)[?x := Some (brk st)]\<rparr>,
              heap := (heap st)(brk st \<mapsto> replicate (nat (int (length s) + 1)) NUL),
              brk := Suc (brk st)\<rparr>) =
      Inr (Some (brk st),
           st\<lparr>tsp := ?cyc\<lparr>cyc_len := (cyc_len ?cyc)[?x := int (length s) + 1],
                          cyc_buf := (cyc_buf ?cyc)[?x := Some (brk st)]\<rparr>,
              heap := (heap st)(brk st \<mapsto> s @ [NUL]),
              brk := Suc (brk st)\<rparr>)"
    using x w by (simp add: render_slot_def)
  have "rd_tsprintf k st (Fmt_Ok s) =
      Inr (Some (brk st),
           st\<lparr>tsp := ?cyc\<lparr>cyc_len := (cyc_len ?cyc)[?x := int (length s) + 1],
                          cyc_buf := (cyc_buf ?cyc)[?x := Some (brk st)]\<rparr>,
              heap := (heap st)(brk st \<mapsto> s @ [NUL]),
              brk := Suc (brk st)\<rparr>)"
    unfolding rd_tsprintf_def get n using len x m rp rs by (auto simp: Let_def)
  then show ?thesis by simp
qed

lemma returned_text_uninit:
  assumes si: "struct_inv k (tsp st)" and sz: "cyc_size (tsp st) = 0"
  shows "returned_text (rd_tsprintf k st r) =
           (case r of
              Fmt_Error \<Rightarrow> Inr None
            | Fmt_Ok s \<Rightarrow>
                if int (length s) > INT_MAX then Inr None
                else if int (length s) = INT_MAX then Inl Signed_Overflow
                else Inr (Some (s @ [NUL])))"
proof (cases r)
  case Fmt_Error
  then show ?thesis
    using sz by (simp add: rd_tsprintf_fail vsnprintf_len_def get_uninit returned_text_def)
next
  case (Fmt_Ok s)
  consider "int (length s) > INT_MAX" | "int (length s) = INT_MAX" | "int (length s) < INT_MAX"
    by linarith
  then show ?thesis
  proof cases
    case 1
    with Fmt_Ok sz show ?thesis
      by (simp add: rd_tsprintf_fail vsnprintf_len_def get_uninit returned_text_def)
  next
    case 2
    with Fmt_Ok sz show ?thesis
      by (simp add: rd_tsprintf_def vsnprintf_len_def get_uninit returned_text_def INT_MAX_def)
  next
    case 3
    with Fmt_Ok rd_tsprintf_uninit [OF si sz 3] show ?thesis
      by (simp add: returned_text_def)
  qed
qed

lemma rd_tsprintf_slot:
  assumes inv: "pool_inv k st" and ok: "rd_tsprintf k st (Fmt_Ok s) = Inr (Some p, st')"
    and sz: "cyc_size (tsp st) \<noteq> 0" and x: "x = nat (cyc_i (tsp st'))"
  shows "if cyc_buf (tsp st) ! x = None \<or> cyc_len (tsp st) ! x < int (length s) + 1
            \<or> (cyc_len (tsp st) ! x > (int (length s) + 1) * 4 \<and> cyc_len (tsp st) ! x > 64)
         then cyc_len (tsp st') ! x = int (length s) + 1 \<and>
              cyc_buf (tsp st') ! x \<noteq> cyc_buf (tsp st) ! x \<and> brk st' = Suc (brk st)
         else cyc_len (tsp st') ! x = cyc_len (tsp st) ! x \<and>
              cyc_buf (tsp st') ! x = cyc_buf (tsp st) ! x \<and> brk st' = brk st"
proof -
  from rd_tsprintf_get [OF ok] obtain cyc where get: "rdstr_cyclic_get (tsp st) k = Inr cyc" ..
  from get_cases [OF get] sz have cyc: "cyc_buf cyc = cyc_buf (tsp st)" "cyc_len cyc = cyc_len (tsp st)"
    by auto
  let ?x = "nat (cyc_i cyc)"
  note r = rd_tsprintf_Some(2,3) [OF ok get]
  from pool_inv_acquire [OF inv get] have inv1: "pool_inv k (st\<lparr>tsp := cyc\<rparr>)" by simp
  show ?thesis
  proof (cases "cyc_buf cyc ! ?x = None \<or> cyc_len cyc ! ?x < int (length s) + 1
            \<or> (cyc_len cyc ! ?x > (int (length s) + 1) * 4 \<and> cyc_len cyc ! ?x > 64)")
    case True
    note rep = rd_tsprintf_replaced [OF ok get True]
    from rep have xx: "x = ?x" by (simp add: x)
    have "cyc_buf cyc ! ?x \<noteq> Some (brk st)"
      using slot_live(2) [OF inv1, of ?x "brk st"] r by auto
    with rep r True show ?thesis unfolding xx cyc [symmetric] by simp
  next
    case False
    from rd_tsprintf_kept [OF ok get False] obtain q blk where
      st': "st' = st\<lparr>tsp := cyc, heap := (heap st)(q \<mapsto> s @ NUL # drop (Suc (length s)) blk)\<rparr>"
      by blast
    then have xx: "x = ?x" by (simp add: x)
    from False show ?thesis unfolding xx cyc [symmetric] by (simp add: st')
  qed
qed

lemma rd_tsprintf_effect:
  assumes inv: "pool_inv k st"
    and ok: "rd_tsprintf k st (Fmt_Ok s) = Inr (Some p, st')"
    and get: "rdstr_cyclic_get (tsp st) k = Inr cyc"
  shows "let x = nat (cyc_i cyc); b = cyc_buf cyc ! x; cap = cyc_len cyc ! x;
             needed = int (length s) + 1;
             replace = (b = None \<or> cap < needed \<or> (cap > needed * 4 \<and> cap > 64))
         in x < length (cyc_buf cyc) \<and> x = nat (cyc_i (tsp st')) \<and>
            (replace \<longleftrightarrow> cyc_buf (tsp st') ! x \<noteq> b) \<and>
            (replace \<longrightarrow>
               (\<forall>q. b = Some q \<longrightarrow> heap st q \<noteq> None \<and> heap st' q = None) \<and>
               cyc_buf (tsp st') ! x = Some p \<and> heap st p = None \<and>
               (\<exists>blk. heap st' p = Some blk \<and> int (length blk) = needed) \<and>
               cyc_len (tsp st') ! x = needed \<and> brk st' = Suc (brk st)) \<and>
            (\<not> replace \<longrightarrow>
               cyc_buf (tsp st') ! x = b \<and> cyc_len (tsp st') ! x = cap \<and> b = Some p \<and>
               dom (heap st') = dom (heap st) \<and> brk st' = brk st)"
proof -
  let ?x = "nat (cyc_i cyc)"
  let ?b = "cyc_buf cyc ! ?x"
  let ?cap = "cyc_len cyc ! ?x"
  let ?needed = "int (length s) + 1"
  let ?replace = "?b = None \<or> ?cap < ?needed \<or> (?cap > ?needed * 4 \<and> ?cap > 64)"
  note x = rd_tsprintf_Some(2,3) [OF ok get]
  from pool_inv_acquire [OF inv get] have inv1: "pool_inv k (st\<lparr>tsp := cyc\<rparr>)" by simp
  have old: "heap st q \<noteq> None \<and> q < brk st" if "?b = Some q" for q
    using slot_live [OF inv1, of ?x q] x that by simp
  from inv have fresh: "heap st (brk st) = None"
    by (auto simp: pool_inv_def heap_bounded_def)
  show ?thesis
  proof (cases ?replace)
    case True
    from rd_tsprintf_replaced [OF ok get True] have
      p: "p = brk st"
      and st': "st' = st\<lparr>tsp := cyc\<lparr>cyc_len := (cyc_len cyc)[?x := ?needed],
                              cyc_buf := (cyc_buf cyc)[?x := Some (brk st)]\<rparr>,
                  heap := (case ?b of None \<Rightarrow> heap st | Some q \<Rightarrow> (heap st)(q := None))
                            (brk st \<mapsto> s @ [NUL]),
                  brk := Suc (brk st)\<rparr>"
      by blast+
    have "cyc_buf (tsp st') ! ?x \<noteq> ?b"
      using old x by (cases ?b) (auto simp: st')
    moreover have "\<forall>q. ?b = Some q \<longrightarrow> heap st q \<noteq> None \<and> heap st' q = None"
      using old by (auto simp: st')
    moreover have "cyc_buf (tsp st') ! ?x = Some p" "cyc_len (tsp st') ! ?x = ?needed"
      "cyc_i (tsp st') = cyc_i cyc"
      using x by (simp_all add: st' p)
    moreover have "\<exists>blk. heap st' p = Some blk \<and> int (length blk) = ?needed"
      "brk st' = Suc (brk st)"
      by (simp_all add: st' p)
    ultimately show ?thesis
      using True x fresh p by (simp add: Let_def)
  next
    case False
    from rd_tsprintf_kept [OF ok get False] obtain q blk where
      q: "?b = Some q" "p = q" "heap st q = Some blk"
      and st': "st' = st\<lparr>tsp := cyc, heap := (heap st)(q \<mapsto> s @ NUL # drop (Suc (length s)) blk)\<rparr>"
      by blast
    have "dom (heap st') = dom (heap st)"
      using q by (auto simp: st')
    with False q x show ?thesis
      by (simp add: Let_def st')
  qed
qed

section \<open>The claims\<close>

text \<open>
  C1. Claimed: whenever the measuring \<^verbatim>\<open>vsnprintf\<close> succeeds, with \<open>needed\<close> the measured
  length plus one for the terminator, the call replaces the storage of the slot it targets
  exactly when the slot has no storage, or its recorded length is below \<open>needed\<close>, or its
  recorded length is above \<open>needed * 4\<close> and above 64. This fails where the source's
  \<^verbatim>\<open>len++\<close> or \<^verbatim>\<open>len * 4\<close> leaves the range of \<^verbatim>\<open>int\<close>. What holds: when the measured length is
  below \<^verbatim>\<open>INT_MAX\<close> and the slot has no storage, or a recorded length below \<open>needed\<close>, or
  \<open>needed * 4\<close> is at most \<^verbatim>\<open>INT_MAX\<close>, the call returns the string and replaces the storage
  exactly under the condition above. When it replaces, an old block is released, the new
  block has exactly \<open>needed\<close> bytes and the recorded length is \<open>needed\<close>. When it does not, the
  slot keeps its block and its recorded length, and no block is allocated or released. The
  slot's values before the call are read after \<^verbatim>\<open>rdstr_cyclic_get\<close>, which creates the slots
  of an uninitialised pool.
\<close>

theorem C1:
  assumes inv: "pool_inv k st" and short: "int (length s) < INT_MAX"
    and nofl: "\<forall>cyc. rdstr_cyclic_get (tsp st) k = Inr cyc \<longrightarrow>
               cyc_buf cyc ! nat (cyc_i cyc) = None \<or>
               cyc_len cyc ! nat (cyc_i cyc) < int (length s) + 1 \<or>
               (int (length s) + 1) * 4 \<le> INT_MAX"
  shows "\<exists>cyc p st'.
           rdstr_cyclic_get (tsp st) k = Inr cyc \<and>
           rd_tsprintf k st (Fmt_Ok s) = Inr (Some p, st') \<and>
           (let x = nat (cyc_i cyc); b = cyc_buf cyc ! x; cap = cyc_len cyc ! x;
                needed = int (length s) + 1;
                replace = (b = None \<or> cap < needed \<or> (cap > needed * 4 \<and> cap > 64))
            in x < length (cyc_buf cyc) \<and> x = nat (cyc_i (tsp st')) \<and>
               (replace \<longleftrightarrow> cyc_buf (tsp st') ! x \<noteq> b) \<and>
               (replace \<longrightarrow>
                  (\<forall>q. b = Some q \<longrightarrow> heap st q \<noteq> None \<and> heap st' q = None) \<and>
                  cyc_buf (tsp st') ! x = Some p \<and> heap st p = None \<and>
                  (\<exists>blk. heap st' p = Some blk \<and> int (length blk) = needed) \<and>
                  cyc_len (tsp st') ! x = needed \<and> brk st' = Suc (brk st)) \<and>
               (\<not> replace \<longrightarrow>
                  cyc_buf (tsp st') ! x = b \<and> cyc_len (tsp st') ! x = cap \<and> b = Some p \<and>
                  dom (heap st') = dom (heap st) \<and> brk st' = brk st))"
proof -
  from rd_tsprintf_returns [OF inv short nofl] obtain p st' where
    ok: "rd_tsprintf k st (Fmt_Ok s) = Inr (Some p, st')"
    by blast
  from rd_tsprintf_get [OF ok] obtain cyc where get: "rdstr_cyclic_get (tsp st) k = Inr cyc" ..
  from rd_tsprintf_effect [OF inv ok get] ok get show ?thesis by blast
qed

theorem C1_witness:
  "rd_tsprintf 1 fresh_thread (Fmt_Ok ''abc'') =
     Inr (Some 0, \<lparr>tsp = \<lparr>cyc_size = 1, cyc_buf = [Some 0], cyc_len = [4], cyc_i = 0\<rparr>,
                    heap = [0 \<mapsto> ''abc'' @ [NUL]], brk = 1\<rparr>) \<and>
   rd_tsprintf 1 \<lparr>tsp = \<lparr>cyc_size = 1, cyc_buf = [Some 0], cyc_len = [4], cyc_i = 0\<rparr>,
                   heap = [0 \<mapsto> ''abc'' @ [NUL]], brk = 1\<rparr> (Fmt_Ok ''xy'') =
     Inr (Some 0, \<lparr>tsp = \<lparr>cyc_size = 1, cyc_buf = [Some 0], cyc_len = [4], cyc_i = 0\<rparr>,
                    heap = [0 \<mapsto> ''xy'' @ [NUL, NUL]], brk = 1\<rparr>) \<and>
   rd_tsprintf 1 \<lparr>tsp = \<lparr>cyc_size = 1, cyc_buf = [Some 0], cyc_len = [4], cyc_i = 0\<rparr>,
                   heap = [0 \<mapsto> ''xy'' @ [NUL, NUL]], brk = 1\<rparr> (Fmt_Ok ''abcdef'') =
     Inr (Some 1, \<lparr>tsp = \<lparr>cyc_size = 1, cyc_buf = [Some 1], cyc_len = [7], cyc_i = 0\<rparr>,
                    heap = [1 \<mapsto> ''abcdef'' @ [NUL]], brk = 2\<rparr>) \<and>
   rd_tsprintf 1 \<lparr>tsp = \<lparr>cyc_size = 1, cyc_buf = [Some 1], cyc_len = [7], cyc_i = 0\<rparr>,
                   heap = [1 \<mapsto> ''abcdef'' @ [NUL]], brk = 2\<rparr>
       (Fmt_Ok (replicate 70 CHR ''a'')) =
     Inr (Some 2, \<lparr>tsp = \<lparr>cyc_size = 1, cyc_buf = [Some 2], cyc_len = [71], cyc_i = 0\<rparr>,
                    heap = [2 \<mapsto> replicate 70 CHR ''a'' @ [NUL]], brk = 3\<rparr>) \<and>
   rd_tsprintf 1 \<lparr>tsp = \<lparr>cyc_size = 1, cyc_buf = [Some 2], cyc_len = [71], cyc_i = 0\<rparr>,
                   heap = [2 \<mapsto> replicate 70 CHR ''a'' @ [NUL]], brk = 3\<rparr> (Fmt_Ok ''xy'') =
     Inr (Some 3, \<lparr>tsp = \<lparr>cyc_size = 1, cyc_buf = [Some 3], cyc_len = [3], cyc_i = 0\<rparr>,
                    heap = [3 \<mapsto> ''xy'' @ [NUL]], brk = 4\<rparr>)"
proof -
  let ?s1 = "\<lparr>tsp = \<lparr>cyc_size = 1, cyc_buf = [Some 0], cyc_len = [4], cyc_i = 0\<rparr>,
               heap = [0 \<mapsto> ''abc'' @ [NUL]], brk = 1\<rparr>"
  let ?s2 = "\<lparr>tsp = \<lparr>cyc_size = 1, cyc_buf = [Some 0], cyc_len = [4], cyc_i = 0\<rparr>,
               heap = [0 \<mapsto> ''xy'' @ [NUL, NUL]], brk = 1\<rparr>"
  let ?s3 = "\<lparr>tsp = \<lparr>cyc_size = 1, cyc_buf = [Some 1], cyc_len = [7], cyc_i = 0\<rparr>,
               heap = [1 \<mapsto> ''abcdef'' @ [NUL]], brk = 2\<rparr>"
  let ?s4 = "\<lparr>tsp = \<lparr>cyc_size = 1, cyc_buf = [Some 2], cyc_len = [71], cyc_i = 0\<rparr>,
               heap = [2 \<mapsto> replicate 70 CHR ''a'' @ [NUL]], brk = 3\<rparr>"
  have i0: "pool_inv 1 fresh_thread"
    by (rule pool_inv_fresh) (simp_all add: INT_MAX_def)
  from C1 [OF i0, of "''abc''"] obtain p1 t1 where
    r1: "rd_tsprintf 1 fresh_thread (Fmt_Ok ''abc'') = Inr (Some p1, t1)"
    by (auto simp: INT_MAX_def)
  then have e1: "p1 = 0 \<and> t1 = ?s1"
    by (auto simp: rd_tsprintf_eval fresh_thread_def cyc_zero_def)
  from pool_inv_render [OF i0 r1] e1 have i1: "pool_inv 1 ?s1" by simp
  from C1 [OF i1, of "''xy''"] obtain p2 t2 where
    r2: "rd_tsprintf 1 ?s1 (Fmt_Ok ''xy'') = Inr (Some p2, t2)"
    by (auto simp: INT_MAX_def)
  then have e2: "p2 = 0 \<and> t2 = ?s2"
    by (auto simp: rd_tsprintf_eval)
  from pool_inv_render [OF i1 r2] e2 have i2: "pool_inv 1 ?s2" by simp
  from C1 [OF i2, of "''abcdef''"] obtain p3 t3 where
    r3: "rd_tsprintf 1 ?s2 (Fmt_Ok ''abcdef'') = Inr (Some p3, t3)"
    by (auto simp: INT_MAX_def)
  then have e3: "p3 = 1 \<and> t3 = ?s3"
    by (auto simp: rd_tsprintf_eval)
  from pool_inv_render [OF i2 r3] e3 have i3: "pool_inv 1 ?s3" by simp
  from C1 [OF i3, of "replicate 70 CHR ''a''"] obtain p4 t4 where
    r4: "rd_tsprintf 1 ?s3 (Fmt_Ok (replicate 70 CHR ''a'')) = Inr (Some p4, t4)"
    by (auto simp: INT_MAX_def)
  then have e4: "p4 = 2 \<and> t4 = ?s4"
    by (auto simp: rd_tsprintf_eval)
  from pool_inv_render [OF i3 r4] e4 have i4: "pool_inv 1 ?s4" by simp
  from C1 [OF i4, of "''xy''"] obtain p5 t5 where
    r5: "rd_tsprintf 1 ?s4 (Fmt_Ok ''xy'') = Inr (Some p5, t5)"
    by (auto simp: INT_MAX_def)
  then have e5: "p5 = 3 \<and>
      t5 = \<lparr>tsp = \<lparr>cyc_size = 1, cyc_buf = [Some 3], cyc_len = [3], cyc_i = 0\<rparr>,
             heap = [3 \<mapsto> ''xy'' @ [NUL]], brk = 4\<rparr>"
    by (auto simp: rd_tsprintf_eval)
  from r1 e1 r2 e2 r3 e3 r4 e4 r5 e5 show ?thesis by simp
qed

text \<open>
  The claim fails for a text of 536870911 bytes rendered twice into the same slot: the
  measurement succeeds and the slot has storage of exactly the needed 536870912 bytes, so
  the claim has the slot kept; the source computes \<^verbatim>\<open>len * 4\<close>, which is \<open>2147483648\<close> and
  leaves the range of \<^verbatim>\<open>int\<close>.
\<close>

theorem C1_counterexample:
  "vsnprintf_len (Fmt_Ok (replicate 536870911 CHR ''a'')) = 536870911 \<and>
   map_sum id tsp (run 1 [Render (Fmt_Ok (replicate 536870911 CHR ''a''))] fresh_thread) =
     Inr \<lparr>cyc_size = 1, cyc_buf = [Some 0], cyc_len = [536870912], cyc_i = 0\<rparr> \<and>
   must_replace (Some 0) 536870912 536870912 = Inl Signed_Overflow \<and>
   run 1 [Render (Fmt_Ok (replicate 536870911 CHR ''a'')),
          Render (Fmt_Ok (replicate 536870911 CHR ''a''))] fresh_thread = Inl Signed_Overflow"
  by (simp add: rd_tsprintf_eval fresh_thread_def cyc_zero_def)

text \<open>
  C2. Claimed: for \<^verbatim>\<open>RD_TSPRINTF_BUFCNT\<close> = \<open>k \<ge> 1\<close>, the \<open>i\<close>-th call after the pool is
  initialised uses slot \<open>(i - 1) mod k\<close>. This holds in a new thread only: an initialisation
  keeps the cursor it finds. Every call counts, also one that returns \<^verbatim>\<open>NULL\<close>. What holds, with \<open>j = i - 1\<close> counting the calls from the
  initialising one: call \<open>j\<close> uses slot \<open>(c + j) mod k\<close>, where \<open>c\<close> is the cursor the
  initialisation found (0 in a new thread, so that the slot is \<open>j mod k\<close> there); calls \<open>j\<close> and
  \<open>j + k\<close> use the same slot; any two of \<open>k\<close> consecutive calls use different slots.
\<close>

theorem C2:
  assumes "struct_inv k (tsp st)" and "cyc_size (tsp st) = 0"
    and "j < length (slots_used k rs st)"
  shows "slots_used k rs st ! j = (cyc_i (tsp st) + int j) mod k \<and>
         (tsp st = cyc_zero \<longrightarrow> slots_used k rs st ! j = int j mod k) \<and>
         (j + nat k < length (slots_used k rs st) \<longrightarrow>
            slots_used k rs st ! (j + nat k) = slots_used k rs st ! j) \<and>
         (\<forall>j'. j < j' \<and> j' < j + nat k \<and> j' < length (slots_used k rs st) \<longrightarrow>
            slots_used k rs st ! j' \<noteq> slots_used k rs st ! j)"
proof -
  let ?c = "cyc_i (tsp st)"
  from assms(1) have k: "1 \<le> k" by (simp add: struct_inv_def)
  have nth: "slots_used k rs st ! i = (?c + int i) mod k" if "i < length (slots_used k rs st)" for i
    using slots_used_nth [OF assms(1) that] assms(2) by simp
  have a: "slots_used k rs st ! j = (?c + int j) mod k"
    using nth [OF assms(3)] .
  have b: "slots_used k rs st ! j = int j mod k" if "tsp st = cyc_zero"
    using a that by (simp add: cyc_zero_def)
  have c: "slots_used k rs st ! (j + nat k) = slots_used k rs st ! j"
    if "j + nat k < length (slots_used k rs st)"
  proof -
    have "(?c + int (j + nat k)) mod k = (?c + int j + k) mod k"
      using k by (simp add: add.assoc)
    also have "\<dots> = (?c + int j) mod k" by simp
    finally show ?thesis using nth [OF that] a by simp
  qed
  have d: "slots_used k rs st ! j' \<noteq> slots_used k rs st ! j"
    if "j < j' \<and> j' < j + nat k \<and> j' < length (slots_used k rs st)" for j'
  proof
    assume "slots_used k rs st ! j' = slots_used k rs st ! j"
    with nth [of j'] a that have "(?c + int j') mod k = (?c + int j) mod k" by simp
    then have "k dvd (?c + int j') - (?c + int j)" by (simp only: mod_eq_dvd_iff)
    then have "k dvd int j' - int j" by simp
    moreover from that k have "0 < int j' - int j" "int j' - int j < k" by auto
    ultimately show False using zdvd_not_zless by blast
  qed
  from a b c d show ?thesis by blast
qed

theorem C2_witness:
  "struct_inv 3 \<lparr>cyc_size = 0, cyc_buf = [], cyc_len = [], cyc_i = 1\<rparr> \<and>
   slots_used 3 [Fmt_Ok ''c'', Fmt_Error, Fmt_Ok ''d'', Fmt_Ok ''e'']
     \<lparr>tsp = \<lparr>cyc_size = 0, cyc_buf = [], cyc_len = [], cyc_i = 1\<rparr>, heap = Map.empty, brk = 2\<rparr>
     = [1, 2, 0, 1] \<and>
   [1, 2, 0, 1 :: int] ! 0 = (1 + int 0) mod 3 \<and>
   [1, 2, 0, 1 :: int] ! (0 + nat 3) = [1, 2, 0, 1] ! 0 \<and>
   [1, 2, 0, 1 :: int] ! 1 \<noteq> [1, 2, 0, 1] ! 0 \<and> [1, 2, 0, 1 :: int] ! 2 \<noteq> [1, 2, 0, 1] ! 0"
proof -
  let ?st = "\<lparr>tsp = \<lparr>cyc_size = 0, cyc_buf = [], cyc_len = [], cyc_i = 1\<rparr>, heap = Map.empty, brk = 2\<rparr>"
  let ?rs = "[Fmt_Ok ''c'', Fmt_Error, Fmt_Ok ''d'', Fmt_Ok ''e'']"
  have s: "struct_inv 3 (tsp ?st)"
    by (simp add: struct_inv_def INT_MAX_def)
  have u: "slots_used 3 ?rs ?st = [1, 2, 0, 1]"
    by code_simp
  from C2 [OF s, of 0 ?rs] s u show ?thesis
    by simp
qed

text \<open>
  The claim fails for a pool initialised after a teardown: with \<open>k = 3\<close>, two calls and a
  cleanup leave the cursor at 1, and the next two calls, the first and second of the new pool,
  use slots 1 and 2 instead of 0 and 1.
\<close>

theorem C2_counterexample:
  "map_sum id tsp (run 3 [Render (Fmt_Ok ''a''), Render (Fmt_Ok ''b''), Teardown] fresh_thread) =
     Inr \<lparr>cyc_size = 0, cyc_buf = [], cyc_len = [], cyc_i = 1\<rparr> \<and>
   map_sum id (slots_used 3 [Fmt_Ok ''c'', Fmt_Ok ''d''])
     (run 3 [Render (Fmt_Ok ''a''), Render (Fmt_Ok ''b''), Teardown] fresh_thread) = Inr [1, 2]"
  by code_simp

text \<open>
  C3. Claimed: \<^verbatim>\<open>rdstr_cyclic_get\<close> on a pool with \<^verbatim>\<open>size == 0\<close> allocates the requested
  number of empty entries, sets \<^verbatim>\<open>size\<close> to it and sets the cursor to 0; on an initialised
  pool the request is ignored and the cursor advances by one modulo \<^verbatim>\<open>size\<close>. The source
  never writes \<^verbatim>\<open>cyc->i\<close> in the first branch, and \<^verbatim>\<open>rd_string_thread_cleanup\<close> does not
  reset it either. What holds: on a pool with \<^verbatim>\<open>size == 0\<close> the call allocates the requested
  number of empty entries (no storage, length 0), sets \<^verbatim>\<open>size\<close> to it and leaves the cursor
  as it is, which is 0 in the zero-initialised object of a new thread; on an initialised pool
  whose cursor is an index of the pool the request is ignored and the cursor becomes
  \<open>(cursor + 1) mod size\<close>.
\<close>

theorem C3:
  "(cyc_size cyc = 0 \<longrightarrow>
      rdstr_cyclic_get cyc req =
        Inr (cyc\<lparr>cyc_size := req, cyc_buf := replicate (nat req) None,
                 cyc_len := replicate (nat req) 0\<rparr>)) \<and>
   (cyc_size cyc = 0 \<and> cyc = cyc_zero \<longrightarrow>
      map_sum id cyc_i (rdstr_cyclic_get cyc req) = Inr 0) \<and>
   (0 < cyc_size cyc \<and> cyc_size cyc \<le> INT_MAX \<and> 0 \<le> cyc_i cyc \<and> cyc_i cyc < cyc_size cyc \<longrightarrow>
      rdstr_cyclic_get cyc req = Inr (cyc\<lparr>cyc_i := (cyc_i cyc + 1) mod cyc_size cyc\<rparr>))"
  by (simp add: get_uninit get_init smod_nonneg cyc_zero_def)

theorem C3_witness:
  "rdstr_cyclic_get \<lparr>cyc_size = 0, cyc_buf = [], cyc_len = [], cyc_i = 1\<rparr> 2 =
     Inr \<lparr>cyc_size = 2, cyc_buf = [None, None], cyc_len = [0, 0], cyc_i = 1\<rparr> \<and>
   rdstr_cyclic_get \<lparr>cyc_size = 2, cyc_buf = [Some 0, None], cyc_len = [4, 0], cyc_i = 1\<rparr> 5 =
     Inr \<lparr>cyc_size = 2, cyc_buf = [Some 0, None], cyc_len = [4, 0], cyc_i = 0\<rparr>"
  using C3 [of "\<lparr>cyc_size = 0, cyc_buf = [], cyc_len = [], cyc_i = 1\<rparr>" 2]
    C3 [of "\<lparr>cyc_size = 2, cyc_buf = [Some 0, None], cyc_len = [4, 0], cyc_i = 1\<rparr>" 5]
  by (simp add: INT_MAX_def numeral_2_eq_2)

text \<open>
  The claim fails after a teardown: two calls of \<^verbatim>\<open>rd_tsprintf\<close> in a new thread leave the
  cursor at 1, the cleanup leaves it there, and the next initialisation starts at 1.
\<close>

theorem C3_counterexample:
  "map_sum id tsp (run 3 [Render (Fmt_Ok ''a''), Render (Fmt_Ok ''b''), Teardown] fresh_thread) =
     Inr \<lparr>cyc_size = 0, cyc_buf = [], cyc_len = [], cyc_i = 1\<rparr> \<and>
   rdstr_cyclic_get \<lparr>cyc_size = 0, cyc_buf = [], cyc_len = [], cyc_i = 1\<rparr> 3 =
     Inr \<lparr>cyc_size = 3, cyc_buf = [None, None, None], cyc_len = [0, 0, 0], cyc_i = 1\<rparr>"
  by code_simp

text \<open>
  C4. Claimed: a call whose measuring \<^verbatim>\<open>vsnprintf\<close> fails returns failure and leaves the
  whole pool state as it was. The source acquires the slot first (line 77) and returns at
  line 84 without undoing it. What holds: the call returns \<^verbatim>\<open>NULL\<close>, the heap is untouched,
  and the pool differs from before by the slot acquisition only: an initialised pool keeps
  \<^verbatim>\<open>size\<close> and every entry's storage and length while its cursor becomes
  \<open>(cursor + 1) mod size\<close>; an uninitialised pool becomes \<^verbatim>\<open>RD_TSPRINTF_BUFCNT\<close> empty entries
  with the cursor where it was.
\<close>

theorem C4:
  assumes "vsnprintf_len r < 0" and "struct_inv k (tsp st)"
  shows "\<exists>cyc. rd_tsprintf k st r = Inr (None, st\<lparr>tsp := cyc\<rparr>) \<and>
           (cyc_size (tsp st) \<noteq> 0 \<longrightarrow>
              cyc_size cyc = cyc_size (tsp st) \<and> cyc_buf cyc = cyc_buf (tsp st) \<and>
              cyc_len cyc = cyc_len (tsp st) \<and>
              cyc_i cyc = (cyc_i (tsp st) + 1) mod cyc_size (tsp st)) \<and>
           (cyc_size (tsp st) = 0 \<longrightarrow>
              cyc_size cyc = k \<and> cyc_buf cyc = replicate (nat k) None \<and>
              cyc_len cyc = replicate (nat k) 0 \<and> cyc_i cyc = cyc_i (tsp st))"
proof -
  from rd_tsprintf_fail_total [OF assms(2,1)] obtain cyc where
    c: "rdstr_cyclic_get (tsp st) k = Inr cyc" "rd_tsprintf k st r = Inr (None, st\<lparr>tsp := cyc\<rparr>)"
    by blast
  from struct_inv_get [OF assms(2)] c(1)
  have i: "cyc_i cyc = (if cyc_size (tsp st) = 0 then cyc_i (tsp st) else (cyc_i (tsp st) + 1) mod k)"
    by auto
  from assms(2) have "cyc_size (tsp st) \<noteq> 0 \<longrightarrow> cyc_size (tsp st) = k"
    by (simp add: struct_inv_def)
  with get_cases [OF c(1)] c(2) i show ?thesis by auto
qed

theorem C4_witness:
  "rd_tsprintf 2 \<lparr>tsp = \<lparr>cyc_size = 2, cyc_buf = [Some 0, None], cyc_len = [4, 0], cyc_i = 0\<rparr>,
                   heap = [0 \<mapsto> ''abc'' @ [NUL]], brk = 1\<rparr> Fmt_Error =
     Inr (None, \<lparr>tsp = \<lparr>cyc_size = 2, cyc_buf = [Some 0, None], cyc_len = [4, 0], cyc_i = 1\<rparr>,
                  heap = [0 \<mapsto> ''abc'' @ [NUL]], brk = 1\<rparr>) \<and>
   rd_tsprintf 2 \<lparr>tsp = \<lparr>cyc_size = 2, cyc_buf = [Some 0, None], cyc_len = [4, 0], cyc_i = 1\<rparr>,
                   heap = [0 \<mapsto> ''abc'' @ [NUL]], brk = 1\<rparr> Fmt_Error =
     Inr (None, \<lparr>tsp = \<lparr>cyc_size = 2, cyc_buf = [Some 0, None], cyc_len = [4, 0], cyc_i = 0\<rparr>,
                  heap = [0 \<mapsto> ''abc'' @ [NUL]], brk = 1\<rparr>)"
proof -
  let ?a = "\<lparr>tsp = \<lparr>cyc_size = 2, cyc_buf = [Some 0, None], cyc_len = [4, 0], cyc_i = 0\<rparr>,
              heap = [0 \<mapsto> ''abc'' @ [NUL]], brk = 1\<rparr>"
  let ?b = "\<lparr>tsp = \<lparr>cyc_size = 2, cyc_buf = [Some 0, None], cyc_len = [4, 0], cyc_i = 1\<rparr>,
              heap = [0 \<mapsto> ''abc'' @ [NUL]], brk = 1\<rparr>"
  from C4 [of Fmt_Error 2 ?a] obtain ca where
    a: "rd_tsprintf 2 ?a Fmt_Error = Inr (None, ?a\<lparr>tsp := ca\<rparr>)"
      "cyc_size ca = 2" "cyc_buf ca = [Some 0, None]" "cyc_len ca = [4, 0]" "cyc_i ca = 1"
    by (auto simp: vsnprintf_len_def struct_inv_def INT_MAX_def)
  from C4 [of Fmt_Error 2 ?b] obtain cb where
    b: "rd_tsprintf 2 ?b Fmt_Error = Inr (None, ?b\<lparr>tsp := cb\<rparr>)"
      "cyc_size cb = 2" "cyc_buf cb = [Some 0, None]" "cyc_len cb = [4, 0]" "cyc_i cb = 0"
    by (auto simp: vsnprintf_len_def struct_inv_def INT_MAX_def)
  have "ca = \<lparr>cyc_size = 2, cyc_buf = [Some 0, None], cyc_len = [4, 0], cyc_i = 1\<rparr>"
    using a(2-5) by (cases ca) simp
  moreover have "cb = \<lparr>cyc_size = 2, cyc_buf = [Some 0, None], cyc_len = [4, 0], cyc_i = 0\<rparr>"
    using b(2-5) by (cases cb) simp
  ultimately show ?thesis using a(1) b(1) by simp
qed

text \<open>
  The claim fails in a new thread (the failing call initialises the pool) and on an
  initialised pool (the failing call moves the cursor from 0 to 1).
\<close>

theorem C4_counterexample:
  "rd_tsprintf 3 fresh_thread Fmt_Error \<noteq> Inr (None, fresh_thread) \<and>
   map_sum id (tsp \<circ> snd) (rd_tsprintf 3 fresh_thread Fmt_Error) =
     Inr \<lparr>cyc_size = 3, cyc_buf = [None, None, None], cyc_len = [0, 0, 0], cyc_i = 0\<rparr> \<and>
   tsp fresh_thread = \<lparr>cyc_size = 0, cyc_buf = [], cyc_len = [], cyc_i = 0\<rparr> \<and>
   map_sum id (tsp \<circ> snd)
     (rd_tsprintf 3 (fresh_thread\<lparr>tsp := \<lparr>cyc_size = 3, cyc_buf = [None, None, None],
                                          cyc_len = [0, 0, 0], cyc_i = 0\<rparr>\<rparr>) Fmt_Error) =
     Inr \<lparr>cyc_size = 3, cyc_buf = [None, None, None], cyc_len = [0, 0, 0], cyc_i = 1\<rparr>"
  by (simp add: rd_tsprintf_fail vsnprintf_len_def get_uninit get_init fresh_thread_def
      cyc_zero_def INT_MAX_def numeral_3_eq_3 smod_nonneg)

text \<open>
  C5. A call whose measuring \<^verbatim>\<open>vsnprintf\<close> fails returns \<^verbatim>\<open>NULL\<close>, and the entry the call
  targets (the one at the cursor after the call) has the storage and the length it had before
  the call; where the call has just created the entry, it has no storage and length 0. No
  block is allocated, released or written.
\<close>

theorem C5:
  assumes "vsnprintf_len r < 0" and "struct_inv k (tsp st)"
  shows "\<exists>st'. rd_tsprintf k st r = Inr (None, st') \<and> heap st' = heap st \<and> brk st' = brk st \<and>
           nat (cyc_i (tsp st')) < length (cyc_buf (tsp st')) \<and>
           nat (cyc_i (tsp st')) < length (cyc_len (tsp st')) \<and>
           (if cyc_size (tsp st) = 0
            then cyc_buf (tsp st') ! nat (cyc_i (tsp st')) = None \<and>
                 cyc_len (tsp st') ! nat (cyc_i (tsp st')) = 0
            else cyc_buf (tsp st') ! nat (cyc_i (tsp st')) = cyc_buf (tsp st) ! nat (cyc_i (tsp st')) \<and>
                 cyc_len (tsp st') ! nat (cyc_i (tsp st')) = cyc_len (tsp st) ! nat (cyc_i (tsp st')))"
proof -
  from rd_tsprintf_fail_total [OF assms(2,1)] obtain cyc where
    c: "rdstr_cyclic_get (tsp st) k = Inr cyc" "rd_tsprintf k st r = Inr (None, st\<lparr>tsp := cyc\<rparr>)"
    by blast
  from struct_inv_get [OF assms(2)] c(1) have s: "struct_inv k cyc" "cyc_size cyc = k"
    by auto
  then have x: "nat (cyc_i cyc) < length (cyc_buf cyc)" "nat (cyc_i cyc) < length (cyc_len cyc)"
    by (auto simp: struct_inv_def split: if_splits)
  from get_cases [OF c(1)] have
    "if cyc_size (tsp st) = 0
     then cyc_buf cyc ! nat (cyc_i cyc) = None \<and> cyc_len cyc ! nat (cyc_i cyc) = 0
     else cyc_buf cyc = cyc_buf (tsp st) \<and> cyc_len cyc = cyc_len (tsp st)"
    using x by auto
  with c(2) x show ?thesis by auto
qed

theorem C5_witness:
  "\<exists>st'. rd_tsprintf 2 \<lparr>tsp = \<lparr>cyc_size = 2, cyc_buf = [None, Some 0], cyc_len = [0, 4], cyc_i = 0\<rparr>,
                         heap = [0 \<mapsto> ''abc'' @ [NUL]], brk = 1\<rparr> Fmt_Error = Inr (None, st') \<and>
         heap st' = [0 \<mapsto> ''abc'' @ [NUL]] \<and> brk st' = 1 \<and> cyc_i (tsp st') = 1 \<and>
         cyc_buf (tsp st') ! 1 = Some 0 \<and> cyc_len (tsp st') ! 1 = 4"
proof -
  have "cyc_i (tsp st') = 1"
    if "rd_tsprintf 2 \<lparr>tsp = \<lparr>cyc_size = 2, cyc_buf = [None, Some 0], cyc_len = [0, 4], cyc_i = 0\<rparr>,
                         heap = [0 \<mapsto> ''abc'' @ [NUL]], brk = 1\<rparr> Fmt_Error = Inr (None, st')" for st'
    using that
    by (simp add: rd_tsprintf_fail vsnprintf_len_def get_init INT_MAX_def smod_nonneg) auto
  with C5 [of Fmt_Error 2 "\<lparr>tsp = \<lparr>cyc_size = 2, cyc_buf = [None, Some 0], cyc_len = [0, 4], cyc_i = 0\<rparr>,
                         heap = [0 \<mapsto> ''abc'' @ [NUL]], brk = 1\<rparr>"]
  show ?thesis
    by (auto simp: vsnprintf_len_def struct_inv_def INT_MAX_def)
qed

text \<open>
  C6. \<^verbatim>\<open>rd_string_thread_cleanup\<close> on a pool with \<^verbatim>\<open>size == 0\<close> changes nothing. Otherwise it
  releases the block of every slot that has one, releases both arrays and sets \<^verbatim>\<open>size\<close> to 0.
  Afterwards \<^verbatim>\<open>size\<close> is 0 and the next call of \<^verbatim>\<open>rd_tsprintf\<close> initialises the pool with
  \<^verbatim>\<open>RD_TSPRINTF_BUFCNT\<close> slots again and returns the rendered text, terminated; for every
  format and arguments, what that call returns is what the first call of a new thread returns.
\<close>

theorem C6:
  assumes "pool_inv k st"
  shows "(cyc_size (tsp st) = 0 \<longrightarrow> rd_string_thread_cleanup st = Inr st) \<and>
         (cyc_size (tsp st) \<noteq> 0 \<longrightarrow>
            rd_string_thread_cleanup st =
              Inr (st\<lparr>tsp := (tsp st)\<lparr>cyc_buf := [], cyc_len := [], cyc_size := 0\<rparr>,
                       heap := (\<lambda>p. if Some p \<in> set (cyc_buf (tsp st)) then None else heap st p)\<rparr>)) \<and>
         (\<exists>st1. rd_string_thread_cleanup st = Inr st1 \<and> cyc_size (tsp st1) = 0 \<and>
            pool_inv k st1 \<and>
            (\<forall>r. returned_text (rd_tsprintf k st1 r) = returned_text (rd_tsprintf k fresh_thread r)) \<and>
            (\<forall>s. int (length s) < INT_MAX \<longrightarrow>
               (\<exists>p st2. rd_tsprintf k st1 (Fmt_Ok s) = Inr (Some p, st2) \<and>
                  cyc_size (tsp st2) = k \<and> length (cyc_buf (tsp st2)) = nat k \<and>
                  cyc_buf (tsp st2) ! nat (cyc_i (tsp st2)) = Some p \<and>
                  heap st2 p = Some (s @ [NUL]))))"
proof -
  from assms have si: "struct_inv k (tsp st)" by (simp add: pool_inv_def)
  then have k: "1 \<le> k" "k \<le> INT_MAX" by (simp_all add: struct_inv_def)
  have noop: "cyc_size (tsp st) = 0 \<longrightarrow> rd_string_thread_cleanup st = Inr st"
    by (simp add: cleanup_noop)
  have total: "cyc_size (tsp st) \<noteq> 0 \<longrightarrow>
            rd_string_thread_cleanup st =
              Inr (st\<lparr>tsp := (tsp st)\<lparr>cyc_buf := [], cyc_len := [], cyc_size := 0\<rparr>,
                       heap := (\<lambda>p. if Some p \<in> set (cyc_buf (tsp st)) then None else heap st p)\<rparr>)"
    using cleanup_total [OF assms] by blast
  from noop total obtain st1 where c: "rd_string_thread_cleanup st = Inr st1" by blast
  from pool_inv_cleanup [OF assms c] have inv1: "pool_inv k st1" .
  then have si1: "struct_inv k (tsp st1)" by (simp add: pool_inv_def)
  from struct_inv_cleanup [OF si c] have sz1: "cyc_size (tsp st1) = 0" by simp
  have sf: "struct_inv k (tsp fresh_thread)" "cyc_size (tsp fresh_thread) = 0"
    using k by (simp_all add: struct_inv_def fresh_thread_def cyc_zero_def)
  have same: "returned_text (rd_tsprintf k st1 r) = returned_text (rd_tsprintf k fresh_thread r)" for r
    by (simp only: returned_text_uninit [OF si1 sz1] returned_text_uninit [OF sf])
  have again: "\<exists>p st2. rd_tsprintf k st1 (Fmt_Ok s) = Inr (Some p, st2) \<and>
                  cyc_size (tsp st2) = k \<and> length (cyc_buf (tsp st2)) = nat k \<and>
                  cyc_buf (tsp st2) ! nat (cyc_i (tsp st2)) = Some p \<and>
                  heap st2 p = Some (s @ [NUL])"
    if "int (length s) < INT_MAX" for s
  proof -
    from si1 have "nat (cyc_i (tsp st1)) < nat k" by (auto simp: struct_inv_def)
    then show ?thesis
      by (simp add: rd_tsprintf_uninit [OF si1 sz1 that])
  qed
  from noop total c sz1 inv1 same again show ?thesis by blast
qed

theorem C6_witness:
  "pool_inv 2 \<lparr>tsp = \<lparr>cyc_size = 2, cyc_buf = [Some 0, Some 1], cyc_len = [4, 3], cyc_i = 1\<rparr>,
                heap = [0 \<mapsto> ''abc'' @ [NUL], 1 \<mapsto> ''xy'' @ [NUL]], brk = 2\<rparr> \<and>
   rd_string_thread_cleanup
       \<lparr>tsp = \<lparr>cyc_size = 2, cyc_buf = [Some 0, Some 1], cyc_len = [4, 3], cyc_i = 1\<rparr>,
         heap = [0 \<mapsto> ''abc'' @ [NUL], 1 \<mapsto> ''xy'' @ [NUL]], brk = 2\<rparr> =
     Inr \<lparr>tsp = \<lparr>cyc_size = 0, cyc_buf = [], cyc_len = [], cyc_i = 1\<rparr>,
           heap = Map.empty, brk = 2\<rparr> \<and>
   rd_tsprintf 2 \<lparr>tsp = \<lparr>cyc_size = 0, cyc_buf = [], cyc_len = [], cyc_i = 1\<rparr>,
                   heap = Map.empty, brk = 2\<rparr> (Fmt_Ok ''hi'') =
     Inr (Some 2, \<lparr>tsp = \<lparr>cyc_size = 2, cyc_buf = [None, Some 2], cyc_len = [0, 3], cyc_i = 1\<rparr>,
                    heap = [2 \<mapsto> ''hi'' @ [NUL]], brk = 3\<rparr>) \<and>
   returned_text (rd_tsprintf 2 \<lparr>tsp = \<lparr>cyc_size = 0, cyc_buf = [], cyc_len = [], cyc_i = 1\<rparr>,
                                  heap = Map.empty, brk = 2\<rparr> (Fmt_Ok ''hi'')) =
     returned_text (rd_tsprintf 2 fresh_thread (Fmt_Ok ''hi''))"
proof -
  let ?st = "\<lparr>tsp = \<lparr>cyc_size = 2, cyc_buf = [Some 0, Some 1], cyc_len = [4, 3], cyc_i = 1\<rparr>,
                heap = [0 \<mapsto> ''abc'' @ [NUL], 1 \<mapsto> ''xy'' @ [NUL]], brk = 2\<rparr>"
  let ?st1 = "\<lparr>tsp = \<lparr>cyc_size = 0, cyc_buf = [], cyc_len = [], cyc_i = 1\<rparr>,
           heap = Map.empty, brk = 2\<rparr>"
  have "run 2 [Render (Fmt_Ok ''abc''), Render (Fmt_Ok ''xy'')] fresh_thread = Inr ?st"
    by (simp add: rd_tsprintf_eval fresh_thread_def cyc_zero_def numeral_2_eq_2)
  then have inv: "pool_inv 2 ?st"
    by (rule pool_inv_run [OF pool_inv_fresh, rotated 2]) (simp_all add: INT_MAX_def)
  have c: "rd_string_thread_cleanup ?st = Inr ?st1"
    by (simp add: rd_string_thread_cleanup_def cleanup_loop.simps free_def)
  have r: "rd_tsprintf 2 ?st1 (Fmt_Ok ''hi'') =
     Inr (Some 2, \<lparr>tsp = \<lparr>cyc_size = 2, cyc_buf = [None, Some 2], cyc_len = [0, 3], cyc_i = 1\<rparr>,
                    heap = [2 \<mapsto> ''hi'' @ [NUL]], brk = 3\<rparr>)"
    by (simp add: rd_tsprintf_eval numeral_2_eq_2)
  from C6 [OF inv] obtain st1 where
    "rd_string_thread_cleanup ?st = Inr st1"
    "\<forall>r. returned_text (rd_tsprintf 2 st1 r) = returned_text (rd_tsprintf 2 fresh_thread r)"
    by blast
  with c have "returned_text (rd_tsprintf 2 ?st1 (Fmt_Ok ''hi'')) =
      returned_text (rd_tsprintf 2 fresh_thread (Fmt_Ok ''hi''))"
    by simp
  with inv c r show ?thesis by simp
qed

text \<open>
  C7. After a call of \<^verbatim>\<open>rd_tsprintf\<close> that returns a string, the length of the string, without
  the terminator, is below the recorded length of the slot the call used. And in every state
  a thread reaches, every slot has storage and a recorded length of at least the length, with
  the terminator, of the text most recently rendered into it.
\<close>

theorem C7:
  "(rd_tsprintf k st0 (Fmt_Ok s) = Inr (Some p, st1) \<longrightarrow>
      nat (cyc_i (tsp st1)) < length (cyc_len (tsp st1)) \<and>
      int (length s) < cyc_len (tsp st1) ! nat (cyc_i (tsp st1))) \<and>
   (1 \<le> k \<and> k \<le> INT_MAX \<and> last_rendered k st m \<and> m x = Some t \<longrightarrow>
      x < length (cyc_len (tsp st)) \<and> cyc_buf (tsp st) ! x \<noteq> None \<and>
      int (length t) + 1 \<le> cyc_len (tsp st) ! x)"
  using rd_tsprintf_target(1,3) [of k st0 s p st1] last_rendered_inv [of k st m] by blast

theorem C7_witness:
  "rd_tsprintf 1 fresh_thread (Fmt_Ok ''abc'') =
     Inr (Some 0, \<lparr>tsp = \<lparr>cyc_size = 1, cyc_buf = [Some 0], cyc_len = [4], cyc_i = 0\<rparr>,
                    heap = [0 \<mapsto> ''abc'' @ [NUL]], brk = 1\<rparr>) \<and>
   int (length ''abc'') < [4] ! 0 \<and>
   last_rendered 1 \<lparr>tsp = \<lparr>cyc_size = 1, cyc_buf = [Some 0], cyc_len = [4], cyc_i = 0\<rparr>,
                     heap = [0 \<mapsto> ''xy'' @ [NUL, NUL]], brk = 1\<rparr> [0 \<mapsto> ''xy''] \<and>
   int (length ''xy'') + 1 \<le> [4] ! 0"
proof -
  let ?c2 = "\<lparr>cyc_size = 1, cyc_buf = [Some 0], cyc_len = [4], cyc_i = 0\<rparr>"
  let ?st1 = "\<lparr>tsp = ?c2, heap = [0 \<mapsto> ''abc'' @ [NUL]], brk = 1\<rparr>"
  let ?st2 = "\<lparr>tsp = ?c2, heap = [0 \<mapsto> ''xy'' @ [NUL, NUL]], brk = 1\<rparr>"
  have r0: "rd_tsprintf 1 fresh_thread (Fmt_Ok ''abc'') = Inr (Some 0, ?st1)"
    by (simp add: rd_tsprintf_eval fresh_thread_def cyc_zero_def)
  have r1: "rd_tsprintf 1 ?st1 (Fmt_Ok ''xy'') = Inr (Some 0, ?st2)"
    by (simp add: rd_tsprintf_eval)
  from last_rendered.rendered [OF last_rendered.start r0]
  have "last_rendered 1 ?st1 [0 \<mapsto> ''abc'']" by simp
  from last_rendered.rendered [OF this r1]
  have h: "last_rendered 1 ?st2 [0 \<mapsto> ''xy'']" by simp
  from C7 [of 1 fresh_thread "''abc''" 0 ?st1 ?st2 "[0 \<mapsto> ''xy'']" 0 "''xy''"] r0 h
  show ?thesis by (simp add: INT_MAX_def)
qed

text \<open>
  C8. The shape of the pool is kept by every operation: \<^verbatim>\<open>size\<close> is 0 exactly when there are no
  slot arrays; the cursor is an index of the pool whenever \<^verbatim>\<open>size\<close> is not 0; a call of
  \<^verbatim>\<open>rd_tsprintf\<close> on an initialised pool keeps \<^verbatim>\<open>size\<close>, as does \<^verbatim>\<open>rdstr_cyclic_get\<close> with
  any other requested count; \<^verbatim>\<open>rd_string_thread_cleanup\<close> leaves \<^verbatim>\<open>size\<close> 0.
\<close>

theorem C8:
  assumes "struct_inv k (tsp st)"
  shows "(cyc_size (tsp st) = 0 \<longleftrightarrow> cyc_buf (tsp st) = [] \<and> cyc_len (tsp st) = []) \<and>
         (cyc_size (tsp st) = 0 \<or> 0 \<le> cyc_i (tsp st) \<and> cyc_i (tsp st) < cyc_size (tsp st)) \<and>
         (\<forall>r v st'. rd_tsprintf k st r = Inr (v, st') \<longrightarrow>
            struct_inv k (tsp st') \<and>
            (cyc_size (tsp st) \<noteq> 0 \<longrightarrow> cyc_size (tsp st') = cyc_size (tsp st))) \<and>
         (\<forall>req cyc. cyc_size (tsp st) \<noteq> 0 \<and> rdstr_cyclic_get (tsp st) req = Inr cyc \<longrightarrow>
            struct_inv k cyc \<and> cyc_size cyc = cyc_size (tsp st)) \<and>
         (\<forall>cyc. rdstr_cyclic_get (tsp st) k = Inr cyc \<longrightarrow> struct_inv k cyc) \<and>
         (\<forall>st'. rd_string_thread_cleanup st = Inr st' \<longrightarrow>
            struct_inv k (tsp st') \<and> cyc_size (tsp st') = 0)"
proof -
  note shape = struct_inv_shape [OF assms]
  have render: "struct_inv k (tsp st') \<and>
      (cyc_size (tsp st) \<noteq> 0 \<longrightarrow> cyc_size (tsp st') = cyc_size (tsp st))"
    if ok: "rd_tsprintf k st r = Inr (v, st')" for r v st'
  proof -
    from struct_inv_render [OF assms ok] have "struct_inv k (tsp st')" "cyc_size (tsp st') = k"
      by simp_all
    moreover from assms have "cyc_size (tsp st) \<noteq> 0 \<longrightarrow> cyc_size (tsp st) = k"
      by (simp add: struct_inv_def)
    ultimately show ?thesis by simp
  qed
  have later: "struct_inv k cyc \<and> cyc_size cyc = cyc_size (tsp st)"
    if "cyc_size (tsp st) \<noteq> 0 \<and> rdstr_cyclic_get (tsp st) req = Inr cyc" for req cyc
    using struct_inv_get_any [OF assms] that by blast
  have first: "struct_inv k cyc" if "rdstr_cyclic_get (tsp st) k = Inr cyc" for cyc
    using struct_inv_get [OF assms] that by auto
  have down: "struct_inv k (tsp st') \<and> cyc_size (tsp st') = 0"
    if "rd_string_thread_cleanup st = Inr st'" for st'
    using struct_inv_cleanup [OF assms that] .
  from shape render later first down show ?thesis by blast
qed

theorem C8_witness:
  "struct_inv 3 (tsp fresh_thread) \<and>
   rd_tsprintf 3 fresh_thread (Fmt_Ok ''abc'') =
     Inr (Some 0, \<lparr>tsp = \<lparr>cyc_size = 3, cyc_buf = [Some 0, None, None], cyc_len = [4, 0, 0],
                            cyc_i = 0\<rparr>,
                    heap = [0 \<mapsto> ''abc'' @ [NUL]], brk = 1\<rparr>) \<and>
   struct_inv 3 \<lparr>cyc_size = 3, cyc_buf = [Some 0, None, None], cyc_len = [4, 0, 0], cyc_i = 0\<rparr> \<and>
   rd_string_thread_cleanup
       \<lparr>tsp = \<lparr>cyc_size = 3, cyc_buf = [Some 0, None, None], cyc_len = [4, 0, 0], cyc_i = 0\<rparr>,
         heap = [0 \<mapsto> ''abc'' @ [NUL]], brk = 1\<rparr> =
     Inr \<lparr>tsp = \<lparr>cyc_size = 0, cyc_buf = [], cyc_len = [], cyc_i = 0\<rparr>,
           heap = Map.empty, brk = 1\<rparr> \<and>
   struct_inv 3 \<lparr>cyc_size = 0, cyc_buf = [], cyc_len = [], cyc_i = 0\<rparr>"
proof -
  let ?st1 = "\<lparr>tsp = \<lparr>cyc_size = 3, cyc_buf = [Some 0, None, None], cyc_len = [4, 0, 0],
                            cyc_i = 0\<rparr>,
                heap = [0 \<mapsto> ''abc'' @ [NUL]], brk = 1\<rparr>"
  let ?st2 = "\<lparr>tsp = \<lparr>cyc_size = 0, cyc_buf = [], cyc_len = [], cyc_i = 0\<rparr>,
           heap = Map.empty, brk = 1\<rparr>"
  have s0: "struct_inv 3 (tsp fresh_thread)"
    by (simp add: struct_inv_def fresh_thread_def cyc_zero_def INT_MAX_def)
  have r0: "rd_tsprintf 3 fresh_thread (Fmt_Ok ''abc'') = Inr (Some 0, ?st1)"
    by (simp add: rd_tsprintf_eval fresh_thread_def cyc_zero_def numeral_3_eq_3)
  from C8 [OF s0] r0 have s1: "struct_inv 3 (tsp ?st1)" by blast
  have c1: "rd_string_thread_cleanup ?st1 = Inr ?st2"
    by (simp add: rd_string_thread_cleanup_def cleanup_loop.simps free_def)
  from C8 [OF s1] c1 have "struct_inv 3 (tsp ?st2)" by blast
  with s0 r0 s1 c1 show ?thesis by simp
qed

text \<open>
  C9. Claimed: after a text of 500 bytes is rendered into a slot, the slot's recorded length
  is 501; a text of 10 bytes rendered next shrinks it to 11, the storage being replaced
  exactly when the recorded length is above \<open>11 * 4\<close> and above 64; at 11, further texts of 10
  bytes replace nothing. The first part fails for a slot whose recorded length is between 501
  and 2004: the source keeps such a block. What holds: the call with the 500 bytes returns
  the string and leaves the recorded length at 501 when the slot had no storage or a recorded
  length below 501 or above 2004, and leaves block and length as they were otherwise. The
  call with 10 bytes on a slot that has storage returns the string and leaves a recorded
  length of at least 11; where the recorded length was at least 11, the storage is replaced
  exactly when the recorded length was above \<open>11 * 4\<close> and above 64; from any recorded length
  above 64, so from 501 and from whatever the 500 bytes left, the call shrinks the slot to
  11; from 11 it keeps the block and the length and allocates nothing. Calls that use another
  slot, and failing calls, leave a slot as it is.
\<close>

theorem C9:
  assumes A: "pool_inv k stA" "length s500 = 500"
    and B: "pool_inv k stB" "length s10 = 10" "cyc_size (tsp stB) \<noteq> 0"
  shows "(\<exists>pA stA'. rd_tsprintf k stA (Fmt_Ok s500) = Inr (Some pA, stA') \<and>
            (let x = nat (cyc_i (tsp stA')); b = cyc_buf (tsp stA) ! x; cap = cyc_len (tsp stA) ! x
             in if cyc_size (tsp stA) = 0 \<or> b = None \<or> cap < 501 \<or> cap > 2004
                then cyc_len (tsp stA') ! x = 501 \<and> cyc_buf (tsp stA') ! x = Some pA \<and>
                     heap stA pA = None
                else cyc_len (tsp stA') ! x = cap \<and> cyc_buf (tsp stA') ! x = b \<and>
                     brk stA' = brk stA)) \<and>
         (\<exists>pB stB'. rd_tsprintf k stB (Fmt_Ok s10) = Inr (Some pB, stB') \<and>
            (let x = nat (cyc_i (tsp stB')); b = cyc_buf (tsp stB) ! x; cap = cyc_len (tsp stB) ! x
             in b \<noteq> None \<longrightarrow>
                  11 \<le> cyc_len (tsp stB') ! x \<and>
                  (11 \<le> cap \<longrightarrow> (cyc_buf (tsp stB') ! x \<noteq> b \<longleftrightarrow> cap > 11 * 4 \<and> cap > 64)) \<and>
                  (64 < cap \<longrightarrow> cyc_len (tsp stB') ! x = 11 \<and> cyc_buf (tsp stB') ! x \<noteq> b) \<and>
                  (cap = 11 \<longrightarrow>
                     cyc_len (tsp stB') ! x = 11 \<and> cyc_buf (tsp stB') ! x = b \<and>
                     brk stB' = brk stB))) \<and>
         (\<forall>st r v st' y. rd_tsprintf k st r = Inr (v, st') \<and> cyc_size (tsp st) \<noteq> 0 \<and>
              (v = None \<or> nat (cyc_i (tsp st')) \<noteq> y) \<longrightarrow>
            cyc_buf (tsp st') ! y = cyc_buf (tsp st) ! y \<and>
            cyc_len (tsp st') ! y = cyc_len (tsp st) ! y)"
proof -
  have "(int (length s500) + 1) * 4 \<le> INT_MAX" by (simp add: A(2) INT_MAX_def)
  from rd_tsprintf_progress [OF A(1) this] obtain pA stA' where
    ra: "rd_tsprintf k stA (Fmt_Ok s500) = Inr (Some pA, stA')" by blast
  note ta = rd_tsprintf_target [OF ra]
  from A(1) have fresh: "heap stA (brk stA) = None"
    by (auto simp: pool_inv_def heap_bounded_def)
  have a: "let x = nat (cyc_i (tsp stA')); b = cyc_buf (tsp stA) ! x; cap = cyc_len (tsp stA) ! x
             in if cyc_size (tsp stA) = 0 \<or> b = None \<or> cap < 501 \<or> cap > 2004
                then cyc_len (tsp stA') ! x = 501 \<and> cyc_buf (tsp stA') ! x = Some pA \<and>
                     heap stA pA = None
                else cyc_len (tsp stA') ! x = cap \<and> cyc_buf (tsp stA') ! x = b \<and>
                     brk stA' = brk stA"
  proof (cases "cyc_size (tsp stA) = 0")
    case True
    from A(1) have si: "struct_inv k (tsp stA)" by (simp add: pool_inv_def)
    then have x: "nat (cyc_i (tsp stA)) < nat k" by (auto simp: struct_inv_def)
    have "int (length s500) < INT_MAX" by (simp add: A(2) INT_MAX_def)
    from rd_tsprintf_uninit [OF si True this] ra A(2) x True fresh show ?thesis
      by (auto simp: Let_def)
  next
    case False
    from rd_tsprintf_get [OF ra] obtain cyc where get: "rdstr_cyclic_get (tsp stA) k = Inr cyc" ..
    from get_cases [OF get] False
    have cyc: "cyc_buf cyc = cyc_buf (tsp stA)" "cyc_len cyc = cyc_len (tsp stA)" by auto
    let ?x = "nat (cyc_i (tsp stA'))"
    show ?thesis
    proof (cases "cyc_buf (tsp stA) ! ?x = None \<or> cyc_len (tsp stA) ! ?x < 501
        \<or> cyc_len (tsp stA) ! ?x > 2004")
      case True
      with rd_tsprintf_slot [OF A(1) ra False refl] A(2)
      have l: "cyc_len (tsp stA') ! ?x = 501" "brk stA' = Suc (brk stA)"
        by (auto split: if_splits)
      have "pA = brk stA"
      proof (cases "cyc_buf cyc ! nat (cyc_i cyc) = None
          \<or> cyc_len cyc ! nat (cyc_i cyc) < int (length s500) + 1
          \<or> (cyc_len cyc ! nat (cyc_i cyc) > (int (length s500) + 1) * 4
              \<and> cyc_len cyc ! nat (cyc_i cyc) > 64)")
        case True
        from rd_tsprintf_replaced [OF ra get True] show ?thesis by simp
      next
        case False
        from rd_tsprintf_kept [OF ra get False] l(2) show ?thesis by auto
      qed
      with True False l ta(4) fresh show ?thesis by (simp add: Let_def)
    next
      case n: False
      with rd_tsprintf_slot [OF A(1) ra False refl] A(2) False show ?thesis
        by (auto simp: Let_def split: if_splits)
    qed
  qed
  have "(int (length s10) + 1) * 4 \<le> INT_MAX" by (simp add: B(2) INT_MAX_def)
  from rd_tsprintf_progress [OF B(1) this] obtain pB stB' where
    rb: "rd_tsprintf k stB (Fmt_Ok s10) = Inr (Some pB, stB')" by blast
  note sb = rd_tsprintf_slot [OF B(1) rb B(3) refl]
  have b: "let x = nat (cyc_i (tsp stB')); b = cyc_buf (tsp stB) ! x; cap = cyc_len (tsp stB) ! x
             in b \<noteq> None \<longrightarrow>
                  11 \<le> cyc_len (tsp stB') ! x \<and>
                  (11 \<le> cap \<longrightarrow> (cyc_buf (tsp stB') ! x \<noteq> b \<longleftrightarrow> cap > 11 * 4 \<and> cap > 64)) \<and>
                  (64 < cap \<longrightarrow> cyc_len (tsp stB') ! x = 11 \<and> cyc_buf (tsp stB') ! x \<noteq> b) \<and>
                  (cap = 11 \<longrightarrow>
                     cyc_len (tsp stB') ! x = 11 \<and> cyc_buf (tsp stB') ! x = b \<and>
                     brk stB' = brk stB)"
    using sb B(2) by (auto simp: Let_def split: if_splits)
  have frame: "cyc_buf (tsp st') ! y = cyc_buf (tsp st) ! y \<and>
            cyc_len (tsp st') ! y = cyc_len (tsp st) ! y"
    if f: "rd_tsprintf k st r = Inr (v, st') \<and> cyc_size (tsp st) \<noteq> 0 \<and>
              (v = None \<or> nat (cyc_i (tsp st')) \<noteq> y)" for st r v st' y
  proof -
    from f have ok: "rd_tsprintf k st r = Inr (v, st')" and sz: "cyc_size (tsp st) \<noteq> 0" by simp_all
    from f rd_tsprintf_frame(3,4) [OF ok sz, of y] rd_tsprintf_frame(5) [OF ok sz]
    show ?thesis by auto
  qed
  from ra a rb b frame show ?thesis by blast
qed

theorem C9_witness:
  "rd_tsprintf 1 fresh_thread (Fmt_Ok (replicate 500 CHR ''a'')) =
     Inr (Some 0, \<lparr>tsp = \<lparr>cyc_size = 1, cyc_buf = [Some 0], cyc_len = [501], cyc_i = 0\<rparr>,
                    heap = [0 \<mapsto> replicate 500 CHR ''a'' @ [NUL]], brk = 1\<rparr>) \<and>
   rd_tsprintf 1 \<lparr>tsp = \<lparr>cyc_size = 1, cyc_buf = [Some 0], cyc_len = [501], cyc_i = 0\<rparr>,
                   heap = [0 \<mapsto> replicate 500 CHR ''a'' @ [NUL]], brk = 1\<rparr>
       (Fmt_Ok (replicate 10 CHR ''b'')) =
     Inr (Some 1, \<lparr>tsp = \<lparr>cyc_size = 1, cyc_buf = [Some 1], cyc_len = [11], cyc_i = 0\<rparr>,
                    heap = [1 \<mapsto> replicate 10 CHR ''b'' @ [NUL]], brk = 2\<rparr>) \<and>
   rd_tsprintf 1 \<lparr>tsp = \<lparr>cyc_size = 1, cyc_buf = [Some 1], cyc_len = [11], cyc_i = 0\<rparr>,
                   heap = [1 \<mapsto> replicate 10 CHR ''b'' @ [NUL]], brk = 2\<rparr>
       (Fmt_Ok (replicate 10 CHR ''c'')) =
     Inr (Some 1, \<lparr>tsp = \<lparr>cyc_size = 1, cyc_buf = [Some 1], cyc_len = [11], cyc_i = 0\<rparr>,
                    heap = [1 \<mapsto> replicate 10 CHR ''c'' @ [NUL]], brk = 2\<rparr>) \<and>
   rd_tsprintf 1 \<lparr>tsp = \<lparr>cyc_size = 1, cyc_buf = [Some 1], cyc_len = [11], cyc_i = 0\<rparr>,
                   heap = [1 \<mapsto> replicate 10 CHR ''c'' @ [NUL]], brk = 2\<rparr>
       (Fmt_Ok (replicate 500 CHR ''d'')) =
     Inr (Some 2, \<lparr>tsp = \<lparr>cyc_size = 1, cyc_buf = [Some 2], cyc_len = [501], cyc_i = 0\<rparr>,
                    heap = [2 \<mapsto> replicate 500 CHR ''d'' @ [NUL]], brk = 3\<rparr>)"
proof -
  let ?a = "replicate 500 CHR ''a''"
  let ?b = "replicate 10 CHR ''b''"
  let ?c = "replicate 10 CHR ''c''"
  let ?d = "replicate 500 CHR ''d''"
  let ?sa = "\<lparr>tsp = \<lparr>cyc_size = 1, cyc_buf = [Some 0], cyc_len = [501], cyc_i = 0\<rparr>,
                heap = [0 \<mapsto> ?a @ [NUL]], brk = 1\<rparr>"
  let ?sb = "\<lparr>tsp = \<lparr>cyc_size = 1, cyc_buf = [Some 1], cyc_len = [11], cyc_i = 0\<rparr>,
                heap = [1 \<mapsto> ?b @ [NUL]], brk = 2\<rparr>"
  let ?sc = "\<lparr>tsp = \<lparr>cyc_size = 1, cyc_buf = [Some 1], cyc_len = [11], cyc_i = 0\<rparr>,
                heap = [1 \<mapsto> ?c @ [NUL]], brk = 2\<rparr>"
  let ?sd = "\<lparr>tsp = \<lparr>cyc_size = 1, cyc_buf = [Some 2], cyc_len = [501], cyc_i = 0\<rparr>,
                heap = [2 \<mapsto> ?d @ [NUL]], brk = 3\<rparr>"
  have la: "length ?a = 500" and lb: "length ?b = 10" and lc: "length ?c = 10"
    and ld: "length ?d = 500"
    by simp_all
  have i0: "pool_inv 1 fresh_thread"
    by (rule pool_inv_fresh) (simp_all add: INT_MAX_def)
  have ra: "rd_tsprintf 1 fresh_thread (Fmt_Ok ?a) = Inr (Some 0, ?sa)"
    by (simp add: rd_tsprintf_eval fresh_thread_def cyc_zero_def)
  have ia: "pool_inv 1 ?sa" using pool_inv_render [OF i0 ra] .
  have rb: "rd_tsprintf 1 ?sa (Fmt_Ok ?b) = Inr (Some 1, ?sb)"
    by (simp add: rd_tsprintf_eval)
  have ib: "pool_inv 1 ?sb" using pool_inv_render [OF ia rb] .
  have rc: "rd_tsprintf 1 ?sb (Fmt_Ok ?c) = Inr (Some 1, ?sc)"
    by (simp add: rd_tsprintf_eval)
  have ic: "pool_inv 1 ?sc" using pool_inv_render [OF ib rc] .
  have rd: "rd_tsprintf 1 ?sc (Fmt_Ok ?d) = Inr (Some 2, ?sd)"
    by (simp add: rd_tsprintf_eval)
  have "cyc_len (tsp ?sa) ! 0 = 501 \<and> cyc_len (tsp ?sb) ! 0 = 11 \<and>
        cyc_buf (tsp ?sb) ! 0 \<noteq> cyc_buf (tsp ?sa) ! 0"
    using C9 [OF i0 la ia lb] ra rb by (simp add: fresh_thread_def cyc_zero_def)
  moreover have "cyc_len (tsp ?sd) ! 0 = 501 \<and> cyc_len (tsp ?sc) ! 0 = 11 \<and>
        cyc_buf (tsp ?sc) ! 0 = cyc_buf (tsp ?sb) ! 0"
    using C9 [OF ic ld ib lc] rc rd by simp
  ultimately show ?thesis
    using ra rb rc rd by simp
qed

text \<open>
  The claim fails for a slot that holds a larger block already: after a text of 600 bytes,
  the text of 500 bytes leaves the recorded length at 601.
\<close>

theorem C9_counterexample:
  "map_sum id (cyc_len \<circ> tsp)
     (run 1 [Render (Fmt_Ok (replicate 600 CHR ''a''))] fresh_thread) = Inr [601] \<and>
   map_sum id (cyc_len \<circ> tsp)
     (run 1 [Render (Fmt_Ok (replicate 600 CHR ''a'')),
             Render (Fmt_Ok (replicate 500 CHR ''b''))] fresh_thread) = Inr [601]"
  by (simp add: rd_tsprintf_eval fresh_thread_def cyc_zero_def)

text \<open>
  C10. A call of \<^verbatim>\<open>rd_tsprintf\<close> whose measuring \<^verbatim>\<open>vsnprintf\<close> fails returns \<^verbatim>\<open>NULL\<close> and
  keeps what \<^verbatim>\<open>rdstr_cyclic_get\<close> did before: an uninitialised pool is initialised with
  \<^verbatim>\<open>RD_TSPRINTF_BUFCNT\<close> empty entries, an initialised pool has its cursor advanced by one
  modulo \<^verbatim>\<open>size\<close>. Nothing else of the state changes.
\<close>

theorem C10:
  assumes "vsnprintf_len r < 0" and "struct_inv k (tsp st)"
  shows "rd_tsprintf k st r =
           Inr (None,
                st\<lparr>tsp := (if cyc_size (tsp st) = 0
                            then (tsp st)\<lparr>cyc_size := k, cyc_buf := replicate (nat k) None,
                                           cyc_len := replicate (nat k) 0\<rparr>
                            else (tsp st)\<lparr>cyc_i := (cyc_i (tsp st) + 1) mod cyc_size (tsp st)\<rparr>)\<rparr>)"
proof (cases "cyc_size (tsp st) = 0")
  case True
  with assms(1) show ?thesis
    by (simp add: rd_tsprintf_fail get_uninit)
next
  case False
  with assms(2) have "cyc_i (tsp st) < INT_MAX" "0 \<le> cyc_i (tsp st) + 1" "0 < cyc_size (tsp st)"
    by (auto simp: struct_inv_def)
  with assms(1) False show ?thesis
    by (simp add: rd_tsprintf_fail get_init smod_nonneg)
qed

theorem C10_witness:
  "rd_tsprintf 3 fresh_thread Fmt_Error =
     Inr (None, fresh_thread\<lparr>tsp := \<lparr>cyc_size = 3, cyc_buf = [None, None, None],
                                      cyc_len = [0, 0, 0], cyc_i = 0\<rparr>\<rparr>) \<and>
   rd_tsprintf 3 (fresh_thread\<lparr>tsp := \<lparr>cyc_size = 3, cyc_buf = [None, None, None],
                                      cyc_len = [0, 0, 0], cyc_i = 2\<rparr>\<rparr>) Fmt_Error =
     Inr (None, fresh_thread\<lparr>tsp := \<lparr>cyc_size = 3, cyc_buf = [None, None, None],
                                      cyc_len = [0, 0, 0], cyc_i = 0\<rparr>\<rparr>)"
  using C10 [of Fmt_Error 3 fresh_thread]
    C10 [of Fmt_Error 3 "fresh_thread\<lparr>tsp := \<lparr>cyc_size = 3, cyc_buf = [None, None, None],
                                      cyc_len = [0, 0, 0], cyc_i = 2\<rparr>\<rparr>"]
  by (simp add: vsnprintf_len_def struct_inv_def INT_MAX_def fresh_thread_def cyc_zero_def
      numeral_3_eq_3)

end
